theory Spec2Isabelle
  imports Main "HOL-Library.Code_Target_Nat"
begin

section \<open>Text model\<close>

text \<open>
  A Python \<open>str\<close> is a sequence of Unicode code points. A code point is a natural
  number and a string is a list of them; \<open>cps\<close> reads an ASCII literal.
\<close>

type_synonym ustr = "nat list"

definition cps :: "string \<Rightarrow> ustr" where
  "cps s = map of_char s"

text \<open>
  The classes \<open>\s\<close>, \<open>\w\<close> and \<open>\d\<close> of Python's \<open>re\<close> on \<open>str\<close> patterns, and
  \<open>str.strip\<close>, consult the Unicode character database (\<open>str.isspace\<close>,
  \<open>str.isalnum\<close>, \<open>str.isdecimal\<close>). The database is not part of the repository: its
  classification of the code points from 128 on is a parameter of the model. The ASCII
  range is written out.
\<close>

record unicode_db =
  uc_space :: "nat \<Rightarrow> bool"
  uc_alnum :: "nat \<Rightarrow> bool"
  uc_decimal :: "nat \<Rightarrow> bool"

definition is_alpha :: "nat \<Rightarrow> bool" where  \<comment> \<open>\<open>[A-Za-z]\<close>\<close>
  "is_alpha c = ((65 \<le> c \<and> c \<le> 90) \<or> (97 \<le> c \<and> c \<le> 122))"

definition is_space :: "unicode_db \<Rightarrow> nat \<Rightarrow> bool" where
  "is_space U c =
     (if c < 128 then (9 \<le> c \<and> c \<le> 13) \<or> (28 \<le> c \<and> c \<le> 32) else uc_space U c)"

definition is_digit :: "unicode_db \<Rightarrow> nat \<Rightarrow> bool" where
  "is_digit U c = (if c < 128 then 48 \<le> c \<and> c \<le> 57 else uc_decimal U c)"

definition is_word :: "unicode_db \<Rightarrow> nat \<Rightarrow> bool" where
  "is_word U c =
     (if c < 128 then is_alpha c \<or> (48 \<le> c \<and> c \<le> 57) \<or> c = 95 else uc_alnum U c)"

text \<open>A database that classifies nothing beyond ASCII, for examples in ASCII.\<close>

definition ascii_db :: unicode_db where
  "ascii_db = \<lparr>uc_space = (\<lambda>c. False), uc_alnum = (\<lambda>c. False), uc_decimal = (\<lambda>c. False)\<rparr>"

text \<open>\<open>str.upper\<close> on a character of \<open>[A-Za-z]\<close>.\<close>

definition upper :: "nat \<Rightarrow> nat" where
  "upper c = (if 97 \<le> c \<and> c \<le> 122 then c - 32 else c)"

text \<open>\<open>str.strip()\<close>: leading and trailing whitespace removed.\<close>

definition py_strip :: "unicode_db \<Rightarrow> ustr \<Rightarrow> ustr" where
  "py_strip U s = rev (dropWhile (is_space U) (rev (dropWhile (is_space U) s)))"

text \<open>\<open>s.replace(k, v)\<close> for a one-character \<open>k\<close>.\<close>

definition replace_char :: "nat \<Rightarrow> ustr \<Rightarrow> ustr \<Rightarrow> ustr" where
  "replace_char k v s = concat (map (\<lambda>c. if c = k then v else [c]) s)"

text \<open>\<open>sep.join(xs)\<close>.\<close>

fun join :: "ustr \<Rightarrow> ustr list \<Rightarrow> ustr" where
  "join sep [] = []"
| "join sep [x] = x"
| "join sep (x # y # ys) = x @ sep @ join sep (y # ys)"

section \<open>The fragment of \<open>re\<close> the program uses\<close>

text \<open>
  Every pattern of the program is a concatenation of atoms: a literal character, a
  character class, a greedy \<open>*\<close> or \<open>+\<close> over a class, or the word boundary \<open>\b\<close>. A
  capture group always encloses exactly one atom.
\<close>

datatype cclass =
    CSpace        \<comment> \<open>\<open>\s\<close>\<close>
  | CWord         \<comment> \<open>\<open>\w\<close>\<close>
  | CDigit        \<comment> \<open>\<open>\d\<close>\<close>
  | CAlpha        \<comment> \<open>\<open>[A-Za-z]\<close>\<close>
  | CNot nat      \<comment> \<open>\<open>[^c]\<close>\<close>
  | CDot          \<comment> \<open>\<open>.\<close>: anything but a newline\<close>

datatype atom = Chr nat | One cclass | Star cclass | Plus cclass | WordB

datatype piece = Plain atom | Group atom

fun atom_of :: "piece \<Rightarrow> atom" where
  "atom_of (Plain a) = a"
| "atom_of (Group a) = a"

fun is_group :: "piece \<Rightarrow> bool" where
  "is_group (Plain a) = False"
| "is_group (Group a) = True"

fun in_cls :: "unicode_db \<Rightarrow> cclass \<Rightarrow> nat \<Rightarrow> bool" where
  "in_cls U CSpace c = is_space U c"
| "in_cls U CWord c = is_word U c"
| "in_cls U CDigit c = is_digit U c"
| "in_cls U CAlpha c = is_alpha c"
| "in_cls U (CNot k) c = (c \<noteq> k)"
| "in_cls U CDot c = (c \<noteq> 10)"

text \<open>\<open>\b\<close> holds where exactly one of the characters before and after is a word character.\<close>

fun word_before :: "unicode_db \<Rightarrow> nat option \<Rightarrow> bool" where
  "word_before U None = False"
| "word_before U (Some c) = is_word U c"

fun word_at :: "unicode_db \<Rightarrow> ustr \<Rightarrow> bool" where
  "word_at U [] = False"
| "word_at U (c # cs) = is_word U c"

fun push :: "ustr \<Rightarrow> (ustr list \<times> ustr) option \<Rightarrow> (ustr list \<times> ustr) option" where
  "push g None = None"
| "push g (Some (gs, r)) = Some (g # gs, r)"

fun grow :: "nat \<Rightarrow> ustr list \<Rightarrow> ustr list" where
  "grow x [] = [[x]]"
| "grow x (g # gs) = (x # g) # gs"

text \<open>
  The backtracking matcher. \<open>rmatch U as p s\<close> matches the atoms \<open>as\<close> at the head of
  \<open>s\<close>, where \<open>p\<close> is the character before \<open>s\<close> in the subject; it returns what each
  atom consumed, and the rest of the subject. A greedy repetition first takes one more
  character and gives it back only when the atoms after it fail.
\<close>

fun rmatch :: "unicode_db \<Rightarrow> atom list \<Rightarrow> nat option \<Rightarrow> ustr \<Rightarrow> (ustr list \<times> ustr) option" where
  "rmatch U [] p s = Some ([], s)"
| "rmatch U (Chr c # as) p [] = None"
| "rmatch U (Chr c # as) p (x # xs) =
     (if x = c then push [x] (rmatch U as (Some x) xs) else None)"
| "rmatch U (One k # as) p [] = None"
| "rmatch U (One k # as) p (x # xs) =
     (if in_cls U k x then push [x] (rmatch U as (Some x) xs) else None)"
| "rmatch U (Star k # as) p [] = push [] (rmatch U as p [])"
| "rmatch U (Star k # as) p (x # xs) =
     (if in_cls U k x then
        (case rmatch U (Star k # as) (Some x) xs of
           Some (gs, r) \<Rightarrow> Some (grow x gs, r)
         | None \<Rightarrow> push [] (rmatch U as p (x # xs)))
      else push [] (rmatch U as p (x # xs)))"
| "rmatch U (Plus k # as) p [] = None"
| "rmatch U (Plus k # as) p (x # xs) =
     (if in_cls U k x then
        (case rmatch U (Star k # as) (Some x) xs of
           Some (gs, r) \<Rightarrow> Some (grow x gs, r)
         | None \<Rightarrow> None)
      else None)"
| "rmatch U (WordB # as) p s =
     (if word_before U p \<noteq> word_at U s then push [] (rmatch U as p s) else None)"

text \<open>The captured groups of a match, in the order of the pattern: \<open>\1\<close> is the first.\<close>

definition groups :: "piece list \<Rightarrow> ustr list \<Rightarrow> ustr list" where
  "groups pat gs = map snd (filter (\<lambda>(q, g). is_group q) (zip pat gs))"

definition group :: "ustr list \<Rightarrow> nat \<Rightarrow> ustr" where
  "group gs n = (if 0 < n \<and> n \<le> length gs then gs ! (n - 1) else [])"

text \<open>\<open>re.match(pat, s)\<close>: a match at the start of \<open>s\<close>; the result is its groups.\<close>

definition re_match :: "unicode_db \<Rightarrow> piece list \<Rightarrow> ustr \<Rightarrow> ustr list option" where
  "re_match U pat s =
     (case rmatch U (map atom_of pat) None s of
        None \<Rightarrow> None
      | Some (gs, r) \<Rightarrow> Some (groups pat gs))"

text \<open>A replacement template: literal text and group references.\<close>

datatype tpl = Lit ustr | Ref nat

fun expand :: "tpl list \<Rightarrow> ustr list \<Rightarrow> ustr" where
  "expand [] gs = []"
| "expand (Lit t # ts) gs = t @ expand ts gs"
| "expand (Ref n # ts) gs = group gs n @ expand ts gs"

text \<open>
  \<open>re.sub(pat, repl, s)\<close>: the subject is scanned from the left; at each position the
  pattern is tried, a match is replaced and the scan goes on behind it, otherwise the
  character is copied. \<open>k\<close> counts the characters of the last match still to be skipped.
  An empty match is replaced and the character behind it copied.
\<close>

fun scan :: "unicode_db \<Rightarrow> piece list \<Rightarrow> tpl list \<Rightarrow> nat \<Rightarrow> nat option \<Rightarrow> ustr \<Rightarrow> ustr" where
  "scan U pat rep k p [] =
     (if k = 0 then
        (case rmatch U (map atom_of pat) p [] of
           None \<Rightarrow> []
         | Some (gs, r) \<Rightarrow> expand rep (groups pat gs))
      else [])"
| "scan U pat rep (Suc k) p (x # xs) = scan U pat rep k (Some x) xs"
| "scan U pat rep 0 p (x # xs) =
     (case rmatch U (map atom_of pat) p (x # xs) of
        None \<Rightarrow> x # scan U pat rep 0 (Some x) xs
      | Some (gs, r) \<Rightarrow>
          (case length (concat gs) of
             0 \<Rightarrow> expand rep (groups pat gs) @ x # scan U pat rep 0 (Some x) xs
           | Suc n \<Rightarrow> expand rep (groups pat gs) @ scan U pat rep n (Some x) xs))"

definition re_sub :: "unicode_db \<Rightarrow> piece list \<Rightarrow> tpl list \<Rightarrow> ustr \<Rightarrow> ustr" where
  "re_sub U pat rep s = scan U pat rep 0 None s"

section \<open>Text normalisation (\<open>speakify_math\<close>, \<open>literalize_symbols\<close>)\<close>

definition lit :: "string \<Rightarrow> piece list" where
  "lit s = map (\<lambda>c. Plain (Chr (of_char c))) s"

text \<open>Code point 92 is the backslash, 96 the backtick.\<close>

definition LATEX_PAIRS :: "(piece list \<times> tpl list) list" where
  "LATEX_PAIRS =
     [ ([Plain (Chr 92), Plain (Chr 40)], []),
       ([Plain (Chr 92), Plain (Chr 41)], []),
       ([Plain (Chr 92), Plain (Chr 91)], []),
       ([Plain (Chr 92), Plain (Chr 93)], []),
       (Plain (Chr 92) # lit ''log'' @ [Plain WordB], [Lit (cps ''log'')]),
       (Plain (Chr 92) # lit ''times'' @ [Plain WordB], [Lit (cps '' times '')]),
       (Plain (Chr 92) # lit ''cdot'' @ [Plain WordB], [Lit (cps '' times '')]),
       (Plain (Chr 92) # lit ''begin{pmatrix}'', [Lit (cps ''the matrix: '')]),
       (Plain (Chr 92) # lit ''end{pmatrix}'', []),
       ([Plain (Chr 92), Plain (Chr 92)], [Lit (cps ''; '')]),
       (lit ''&'', [Lit (cps '', '')]),
       ([Plain (Chr 92), Plain (Plus CAlpha)], []) ]"

definition backtick_pat :: "piece list" where  \<comment> \<open>\<open>`([^`]+)`\<close>\<close>
  "backtick_pat = [Plain (Chr 96), Group (Plus (CNot 96)), Plain (Chr 96)]"

definition bigO_pat :: "piece list" where  \<comment> \<open>\<open>\bO\s*\(\s*([^)]+)\s*\)\<close>\<close>
  "bigO_pat =
     [Plain WordB, Plain (Chr 79), Plain (Star CSpace), Plain (Chr 40), Plain (Star CSpace),
      Group (Plus (CNot 41)), Plain (Star CSpace), Plain (Chr 41)]"

definition power_pat :: "piece list" where  \<comment> \<open>\<open>(\w)\s*\^\s*(\d+)\<close>\<close>
  "power_pat =
     [Group (One CWord), Plain (Star CSpace), Plain (Chr 94), Plain (Star CSpace),
      Group (Plus CDigit)]"

definition ws_pat :: "piece list" where  \<comment> \<open>\<open>\s+\<close>\<close>
  "ws_pat = [Plain (Plus CSpace)]"

text \<open>\<open>re.sub(r"\s+", " ", t).strip()\<close>, the last step of both normalisers.\<close>

definition squeeze :: "unicode_db \<Rightarrow> ustr \<Rightarrow> ustr" where
  "squeeze U t = py_strip U (re_sub U ws_pat [Lit (cps '' '')] t)"

text \<open>
  The symbols of \<open>speakify_math\<close>, in the order of the \<open>replace\<close> chain: U+2265, U+2264,
  U+2192, U+2208, U+2211, U+220F, U+221A.
\<close>

definition SYMBOLS :: "(nat \<times> ustr) list" where
  "SYMBOLS =
     [ (8805, cps '' greater or equal to ''),
       (8804, cps '' less or equal to ''),
       (8594, cps '' arrow ''),
       (8712, cps '' in ''),
       (8721, cps '' sum ''),
       (8719, cps '' product ''),
       (8730, cps '' square root of '') ]"

definition replace_all :: "(nat \<times> ustr) list \<Rightarrow> ustr \<Rightarrow> ustr" where
  "replace_all tab t = foldl (\<lambda>t (k, v). replace_char k v t) t tab"

definition apply_latex_pairs :: "unicode_db \<Rightarrow> ustr \<Rightarrow> ustr" where
  "apply_latex_pairs U t = foldl (\<lambda>t (pat, rep). re_sub U pat rep t) t LATEX_PAIRS"

definition speakify_math :: "unicode_db \<Rightarrow> ustr \<Rightarrow> ustr" where
  "speakify_math U text =
     (let t = re_sub U backtick_pat [Ref 1] text;
          t = apply_latex_pairs U t;
          t = re_sub U bigO_pat [Lit (cps ''Big O of ''), Ref 1] t;
          t = re_sub U power_pat [Ref 1, Lit (cps '' to the power of ''), Ref 2] t;
          t = replace_all SYMBOLS t
      in squeeze U t)"

text \<open>The dictionary of \<open>literalize_symbols\<close>, in insertion order.\<close>

definition PUNCT :: "(nat \<times> ustr) list" where
  "PUNCT =
     [ (40, cps '' open parenthesis ''), (41, cps '' close parenthesis ''),
       (91, cps '' open bracket ''), (93, cps '' close bracket ''),
       (58, cps '' colon ''), (44, cps '' comma ''), (63, cps '' question mark ''),
       (61, cps '' equals ''), (43, cps '' plus ''), (45, cps '' minus ''),
       (42, cps '' times ''), (47, cps '' slash ''), (94, cps '' caret '') ]"

definition literalize_symbols :: "unicode_db \<Rightarrow> ustr \<Rightarrow> ustr" where
  "literalize_symbols U text = squeeze U (replace_all PUNCT text)"

text \<open>
  \<open>READING_MODE\<close> is read in one test only, \<open>READING_MODE.lower() == "literal"\<close>; the
  mode \<open>Literal\<close> stands for the settings that pass it, \<open>Natural\<close> for all others.
\<close>

datatype mode = Natural | Literal

definition to_spoken_english :: "unicode_db \<Rightarrow> mode \<Rightarrow> ustr \<Rightarrow> ustr" where
  "to_spoken_english U m raw =
     (let base = speakify_math U raw
      in if m = Literal then literalize_symbols U base else base)"

section \<open>Assembling the spoken parts\<close>

datatype py_error = IndexError

definition INTRO_PROMPT :: ustr where
  "INTRO_PROMPT = cps ''Not so fast, I have a question for you.''"

definition letters :: "ustr list" where
  "letters = [cps ''A'', cps ''B'', cps ''C'', cps ''D'', cps ''E'', cps ''F'']"

definition label_pat :: "piece list" where  \<comment> \<open>\<open>\s*([A-Za-z])\s*:\s*(.*)\<close>\<close>
  "label_pat =
     [Plain (Star CSpace), Group (One CAlpha), Plain (Star CSpace), Plain (Chr 58),
      Plain (Star CSpace), Group (Star CDot)]"

definition answer_pat :: "piece list" where  \<comment> \<open>\<open>\s*[A-Za-z]\s*:\s*(.*)\<close>\<close>
  "answer_pat =
     [Plain (Star CSpace), Plain (One CAlpha), Plain (Star CSpace), Plain (Chr 58),
      Plain (Star CSpace), Group (Star CDot)]"

text \<open>The label and the body of the option at position \<open>i\<close>: the body of the loop.\<close>

definition option_label :: "unicode_db \<Rightarrow> nat \<Rightarrow> ustr \<Rightarrow> py_error + (ustr \<times> ustr)" where
  "option_label U i opt =
     (case re_match U label_pat opt of
        Some gs \<Rightarrow> Inr (map upper (group gs 1), group gs 2)
      | None \<Rightarrow> (if i < length letters then Inr (letters ! i, opt) else Inl IndexError))"

definition spoken_option :: "unicode_db \<Rightarrow> mode \<Rightarrow> ustr \<times> ustr \<Rightarrow> ustr" where
  "spoken_option U m lb =
     cps ''Option '' @ fst lb @ cps '': '' @ to_spoken_english U m (snd lb) @ cps ''.''"

text \<open>The loop over \<open>enumerate(options)\<close>, from position \<open>i\<close> on.\<close>

fun spoken_opts :: "unicode_db \<Rightarrow> mode \<Rightarrow> nat \<Rightarrow> ustr list \<Rightarrow> py_error + ustr list" where
  "spoken_opts U m i [] = Inr []"
| "spoken_opts U m i (opt # rest) =
     (case option_label U i opt of
        Inl e \<Rightarrow> Inl e
      | Inr lb \<Rightarrow>
          (case spoken_opts U m (Suc i) rest of
             Inl e \<Rightarrow> Inl e
           | Inr done \<Rightarrow> Inr (spoken_option U m lb # done)))"

definition build_question_parts ::
    "unicode_db \<Rightarrow> mode \<Rightarrow> nat \<Rightarrow> ustr \<Rightarrow> ustr \<Rightarrow> ustr list \<Rightarrow> py_error + (ustr \<times> ustr)" where
  "build_question_parts U m q_idx topic q_text options =
     (let q_spoken = to_spoken_english U m q_text
      in case spoken_opts U m 0 options of
           Inl e \<Rightarrow> Inl e
         | Inr sp \<Rightarrow> Inr (INTRO_PROMPT @ cps '' '' @ q_spoken @ cps ''.'', join (cps '' '') sp))"

text \<open>\<open>xs[i]\<close> for a Python integer \<open>i\<close>: a negative index counts from the end.\<close>

definition py_index :: "'a list \<Rightarrow> int \<Rightarrow> py_error + 'a" where
  "py_index xs i =
     (if 0 \<le> i \<and> i < int (length xs) then Inr (xs ! nat i)
      else if i < 0 \<and> - int (length xs) \<le> i then Inr (xs ! nat (int (length xs) + i))
      else Inl IndexError)"

text \<open>\<open>m.group(1) if m else raw\<close>, for \<open>m = re.match(answer_pat, raw)\<close>.\<close>

definition answer_body :: "unicode_db \<Rightarrow> ustr \<Rightarrow> ustr" where
  "answer_body U raw = (case re_match U answer_pat raw of Some gs \<Rightarrow> group gs 1 | None \<Rightarrow> raw)"

definition build_answer_text :: "unicode_db \<Rightarrow> mode \<Rightarrow> int \<Rightarrow> ustr list \<Rightarrow> py_error + ustr" where
  "build_answer_text U m correct_idx options =
     (let letter = (if 0 \<le> correct_idx \<and> correct_idx < int (length letters)
                    then letters ! nat correct_idx else cps ''A'')
      in case py_index options correct_idx of
           Inl e \<Rightarrow> Inl e
         | Inr raw \<Rightarrow>
             Inr (cps ''The correct answer is option '' @ letter @ cps '': '' @
                  to_spoken_english U m (answer_body U raw) @ cps ''.''))"

definition build_explanation_text :: "unicode_db \<Rightarrow> mode \<Rightarrow> ustr \<Rightarrow> ustr" where
  "build_explanation_text U m expl = cps ''Explanation: '' @ to_spoken_english U m expl"

section \<open>One question of the main loop\<close>

text \<open>
  The configuration block of the module. \<open>INTRO_PROMPT\<close> is the constant above; the
  paths and the pause do not reach the text.
\<close>

record config =
  READING_MODE :: mode
  INCLUDE_CORRECT_ANSWER :: bool
  INCLUDE_EXPLANATION :: bool
  EXPLANATION_SEPARATE_FILE :: bool

text \<open>
  What \<open>main\<close> reads of one \<open>Question\<close> element: the \<open>Topic\<close> attribute, the text of
  \<open>Text\<close> (\<open>None\<close>: no element or no text), the text of every \<open>Option\<close> (\<open>opt_el.text or ""\<close>),
  the integer of \<open>CorrectOptionIndex\<close> (\<open>None\<close>: no element, no text, or \<open>int\<close> raises
  \<open>ValueError\<close>) and the text of \<open>Explanation\<close> (\<open>None\<close>: no element or no text).
\<close>

record question =
  el_topic :: ustr
  el_text :: "ustr option"
  el_options :: "ustr list"
  el_correct :: "int option"
  el_explanation :: "ustr option"

text \<open>A call of \<open>model.generate\<close>: the text, tagged with the part it speaks.\<close>

datatype kind = Question | Options | Answer | Explanation | Combined

text \<open>Python's truth value of \<open>None\<close> or a string.\<close>

fun truthy :: "ustr option \<Rightarrow> bool" where
  "truthy None = False"
| "truthy (Some s) = (s \<noteq> [])"

fun unit_of :: "kind \<Rightarrow> ustr option \<Rightarrow> (kind \<times> ustr) list" where
  "unit_of k None = []"
| "unit_of k (Some s) = (if s \<noteq> [] then [(k, s)] else [])"

text \<open>
  The body of the loop for question number \<open>idx\<close>: the calls of \<open>model.generate\<close> in
  order, or the exception that ends the run. A question without text is skipped.
\<close>

definition process_question ::
    "unicode_db \<Rightarrow> config \<Rightarrow> nat \<Rightarrow> question \<Rightarrow> py_error + (kind \<times> ustr) list" where
  "process_question U cfg idx q =
     (case el_text q of
        None \<Rightarrow> Inr []
      | Some txt \<Rightarrow>
          (let m = READING_MODE cfg;
               text = py_strip U txt;
               options = filter (\<lambda>t. t \<noteq> []) (map (py_strip U) (el_options q))
           in case build_question_parts U m idx (el_topic q) text options of
                Inl e \<Rightarrow> Inl e
              | Inr (part_q, part_opts) \<Rightarrow>
                  (case (if INCLUDE_CORRECT_ANSWER cfg then
                           (case el_correct q of
                              None \<Rightarrow> Inr None
                            | Some correct_idx \<Rightarrow>
                                if 0 \<le> correct_idx \<and> correct_idx < int (length options)
                                then map_sum id Some (build_answer_text U m correct_idx options)
                                else Inr None)
                         else Inr None) of
                     Inl e \<Rightarrow> Inl e
                   | Inr spoken_ans \<Rightarrow>
                       (let spoken_expl =
                              (if INCLUDE_EXPLANATION cfg \<and> truthy (el_explanation q)
                               then map_option (\<lambda>e. build_explanation_text U m (py_strip U e))
                                      (el_explanation q)
                               else None)
                        in Inr ([(Question, part_q), (Options, part_opts)] @
                             (if truthy spoken_ans \<or> truthy spoken_expl then
                                (if EXPLANATION_SEPARATE_FILE cfg then
                                   unit_of Answer spoken_ans @ unit_of Explanation spoken_expl
                                 else
                                   [(Combined,
                                     join (cps '' '')
                                       (filter (\<lambda>x. x \<noteq> [])
                                          ([part_q, part_opts] @ map the
                                             (filter truthy [spoken_ans, spoken_expl]))))])
                              else []))))))"

section \<open>Notions of the specification\<close>

text \<open>
  \<open>collapseWhitespace\<close>: every run of whitespace becomes one space. \<open>trim\<close> is
  \<open>py_strip\<close>.
\<close>

function collapseWhitespace :: "unicode_db \<Rightarrow> ustr \<Rightarrow> ustr" where
  "collapseWhitespace U [] = []"
| "collapseWhitespace U (x # xs) =
     (if is_space U x then 32 # collapseWhitespace U (dropWhile (is_space U) xs)
      else x # collapseWhitespace U xs)"
  by pat_completeness auto
termination
  by (relation "measure (\<lambda>(U, s). length s)") (auto simp: length_dropWhile_le less_Suc_eq_le)

text \<open>
  Markup: the backslash, the backtick, the ampersand, and the symbols of the two
  replacement tables (which hold the caret and the parentheses of a Big-O term).
\<close>

definition MARKUP :: "nat list" where
  "MARKUP = [92, 96, 38] @ map fst SYMBOLS @ map fst PUNCT"

definition markup_free :: "ustr \<Rightarrow> bool" where
  "markup_free s = (\<forall>c \<in> set s. c \<notin> set MARKUP)"

text \<open>Trailing whitespace removed.\<close>

definition rstrip :: "unicode_db \<Rightarrow> ustr \<Rightarrow> ustr" where
  "rstrip U s = rev (dropWhile (is_space U) (rev s))"

text \<open>The punctuation of the literal mode does not occur.\<close>

definition no_punct :: "ustr \<Rightarrow> bool" where
  "no_punct s = list_all (\<lambda>c. c \<notin> set (map fst PUNCT)) s"

text \<open>No backslash stands immediately before a letter of \<open>[A-Za-z]\<close>: no command token.\<close>

fun cmd_free :: "ustr \<Rightarrow> bool" where
  "cmd_free [] = True"
| "cmd_free [x] = True"
| "cmd_free (x # y # ys) = (\<not> (x = 92 \<and> is_alpha y) \<and> cmd_free (y # ys))"

definition catchall_pat :: "piece list" where
  "catchall_pat = [Plain (Chr 92), Plain (Plus CAlpha)]"

definition starts_alpha :: "ustr \<Rightarrow> bool" where
  "starts_alpha s = (case s of [] \<Rightarrow> False | c # cs \<Rightarrow> is_alpha c)"

text \<open>
  An option that begins with a letter and a colon, whitespace allowed before each: the
  letter and the body behind the colon (what is left of its line, leading whitespace
  dropped).
\<close>

definition split_label :: "unicode_db \<Rightarrow> ustr \<Rightarrow> (nat \<times> ustr) option" where
  "split_label U s =
     (case dropWhile (is_space U) s of
        [] \<Rightarrow> None
      | l # r1 \<Rightarrow>
          if is_alpha l then
            (case dropWhile (is_space U) r1 of
               [] \<Rightarrow> None
             | c # r2 \<Rightarrow>
                 if c = 58
                 then Some (l, takeWhile (\<lambda>c. c \<noteq> 10) (dropWhile (is_space U) r2))
                 else None)
          else None)"

text \<open>\<open>needle in hay\<close>: the literal substring.\<close>

fun contains :: "ustr \<Rightarrow> ustr \<Rightarrow> bool" where
  "contains n [] = (n = [])"
| "contains n (x # xs) = (take (length n) (x # xs) = n \<or> contains n xs)"

text \<open>\<open>Question \<close> followed by a digit.\<close>

definition question_marker :: "ustr \<Rightarrow> bool" where
  "question_marker s = list_ex (\<lambda>d. contains (cps ''Question '' @ [d]) s) [48 ..< 58]"

text \<open>
  The labelling rule in the words of the specification: the letter of an option that
  brings its own, upper-cased, or else the letter at the option's position.
\<close>

definition expected_label :: "unicode_db \<Rightarrow> nat \<Rightarrow> ustr \<Rightarrow> ustr" where
  "expected_label U j opt =
     (case split_label U opt of Some (l, b) \<Rightarrow> [upper l] | None \<Rightarrow> letters ! j)"

definition expected_body :: "unicode_db \<Rightarrow> ustr \<Rightarrow> ustr" where
  "expected_body U opt = (case split_label U opt of Some (l, b) \<Rightarrow> b | None \<Rightarrow> opt)"

text \<open>Every option without a letter of its own stands at one of the first six positions.\<close>

definition labels_suffice :: "unicode_db \<Rightarrow> nat \<Rightarrow> ustr list \<Rightarrow> bool" where
  "labels_suffice U i opts =
     list_all (\<lambda>(j, opt). split_label U opt = None \<longrightarrow> j < length letters) (enumerate i opts)"

definition expected_option :: "unicode_db \<Rightarrow> mode \<Rightarrow> nat \<times> ustr \<Rightarrow> ustr" where
  "expected_option U m jo =
     cps ''Option '' @ expected_label U (fst jo) (snd jo) @ cps '': '' @
     to_spoken_english U m (expected_body U (snd jo)) @ cps ''.''"

text \<open>
  The punctuation table applied to one character: its spelled-out words, or the
  character itself when the table does not hold it.
\<close>

definition spell_out :: "nat \<Rightarrow> ustr" where
  "spell_out c = (case map_of PUNCT c of Some w \<Rightarrow> w | None \<Rightarrow> [c])"

text \<open>
  Deleting the command tokens, in the words of the specification: a backslash that
  stands before a letter goes together with the whole run of letters behind it; every
  other character stays.
\<close>

function strip_commands :: "ustr \<Rightarrow> ustr" where
  "strip_commands [] = []"
| "strip_commands (x # xs) =
     (if x = 92 \<and> starts_alpha xs then strip_commands (dropWhile is_alpha xs)
      else x # strip_commands xs)"
  by pat_completeness auto
termination
  by (relation "measure length") (auto simp: length_dropWhile_le less_Suc_eq_le)

text \<open>The rules of \<open>LATEX_PAIRS\<close> before the last one, applied in order.\<close>

definition earlier_rules :: "unicode_db \<Rightarrow> ustr \<Rightarrow> ustr" where
  "earlier_rules U t = foldl (\<lambda>t (pat, rep). re_sub U pat rep t) t (butlast LATEX_PAIRS)"

text \<open>Apart from the backslash, no markup.\<close>

definition plain_but_backslash :: "ustr \<Rightarrow> bool" where
  "plain_but_backslash t = markup_free (filter (\<lambda>c. c \<noteq> 92) t)"

text \<open>The characters an atom can consume.\<close>

fun atom_chars :: "unicode_db \<Rightarrow> atom \<Rightarrow> nat \<Rightarrow> bool" where
  "atom_chars U (Chr k) c = (c = k)"
| "atom_chars U (One k) c = in_cls U k c"
| "atom_chars U (Star k) c = in_cls U k c"
| "atom_chars U (Plus k) c = in_cls U k c"
| "atom_chars U WordB c = False"

text \<open>The characters of the literal parts of a replacement template.\<close>

fun tpl_chars :: "tpl list \<Rightarrow> nat set" where
  "tpl_chars [] = {}"
| "tpl_chars (Lit t # ts) = set t \<union> tpl_chars ts"
| "tpl_chars (Ref n # ts) = tpl_chars ts"

section \<open>Properties of the matcher\<close>

lemma push_eq_Some: "push g m = Some (gs, r) \<longleftrightarrow> (\<exists>gs'. m = Some (gs', r) \<and> gs = g # gs')"
  by (cases m) auto

lemma push_eq_None: "push g m = None \<longleftrightarrow> m = None"
  by (cases m) auto

lemma concat_grow: "gs \<noteq> [] \<Longrightarrow> concat (grow x gs) = x # concat gs"
  by (cases gs) auto

lemma length_grow: "gs \<noteq> [] \<Longrightarrow> length (grow x gs) = length gs"
  by (cases gs) auto

lemma rmatch_shape:
  "rmatch U as p s = Some (gs, r) \<Longrightarrow> length gs = length as \<and> concat gs @ r = s"
proof (induction U as p s arbitrary: gs r rule: rmatch.induct)
  case (7 U k as p x xs)
  show ?case
  proof (cases "in_cls U k x")
    case True
    show ?thesis
    proof (cases "rmatch U (Star k # as) (Some x) xs")
      case None
      with 7 True show ?thesis by (auto simp: push_eq_Some)
    next
      case (Some a)
      obtain gs' r' where a: "a = (gs', r')" by (cases a)
      from 7(1)[OF True] Some a have "length gs' = length (Star k # as) \<and> concat gs' @ r' = xs"
        by simp
      moreover from 7(4) True Some a have "gs = grow x gs'" "r = r'" by auto
      ultimately show ?thesis by (cases gs') auto
    qed
  next
    case False
    with 7 show ?thesis by (auto simp: push_eq_Some)
  qed
next
  case (9 U k as p x xs)
  show ?case
  proof (cases "in_cls U k x")
    case True
    show ?thesis
    proof (cases "rmatch U (Star k # as) (Some x) xs")
      case None
      with 9 True show ?thesis by auto
    next
      case (Some a)
      obtain gs' r' where a: "a = (gs', r')" by (cases a)
      from 9(1)[OF True] Some a have "length gs' = length (Star k # as) \<and> concat gs' @ r' = xs"
        by simp
      moreover from 9(2) True Some a have "gs = grow x gs'" "r = r'" by auto
      ultimately show ?thesis by (cases gs') auto
    qed
  next
    case False
    with 9 show ?thesis by auto
  qed
qed (auto simp: push_eq_Some split: if_splits)

lemma rmatch_needs:
  "rmatch U as p s = Some (gs, r) \<Longrightarrow> Chr c \<in> set as \<Longrightarrow> c \<in> set s"
proof (induction U as p s arbitrary: gs r rule: rmatch.induct)
  case (7 U k as p x xs)
  then show ?case
    by (cases "in_cls U k x"; cases "rmatch U (Star k # as) (Some x) xs")
       (auto simp: push_eq_Some split: if_splits)
next
  case (9 U k as p x xs)
  then show ?case
    by (cases "in_cls U k x"; cases "rmatch U (Star k # as) (Some x) xs")
       (auto simp: push_eq_Some split: if_splits)
qed (auto simp: push_eq_Some split: if_splits)

lemma rmatch_noB:
  "WordB \<notin> set as \<Longrightarrow> rmatch U as p s = rmatch U as None s"
proof (induction U as p s rule: rmatch.induct)
  case (7 U k as p x xs)
  show ?case
  proof (cases "in_cls U k x")
    case True
    with 7 have b: "rmatch U (Star k # as) (Some x) xs = rmatch U (Star k # as) None xs"
      by simp
    show ?thesis
    proof (cases "rmatch U (Star k # as) (Some x) xs")
      case None
      with 7 True have "rmatch U as p (x # xs) = rmatch U as None (x # xs)" by simp
      with True None b show ?thesis by simp
    next
      case (Some a)
      with b have "rmatch U (Star k # as) None xs = Some a" by simp
      with True Some show ?thesis by simp
    qed
  next
    case False
    with 7 show ?thesis by simp
  qed
qed auto

lemma rmatch_prev:
  "WordB \<notin> set as \<Longrightarrow> rmatch U as p s = rmatch U as q s"
  using rmatch_noB[of as U p s] rmatch_noB[of as U q s] by simp

lemma rmatch_star_last:
  "rmatch U [Star k] p s = Some ([takeWhile (in_cls U k) s], dropWhile (in_cls U k) s)"
  by (induction s arbitrary: p) auto

text \<open>A repetition keeps all it can take when the atoms behind it cannot start there.\<close>

lemma rmatch_star_commit:
  assumes "WordB \<notin> set as"
    and "\<And>y ys. in_cls U k y \<Longrightarrow> rmatch U as None (y # ys) = None"
  shows "rmatch U (Star k # as) p s =
         push (takeWhile (in_cls U k) s) (rmatch U as None (dropWhile (in_cls U k) s))"
proof (induction s arbitrary: p)
  case Nil
  show ?case using rmatch_prev[OF assms(1), of U p "[]" None] by simp
next
  case (Cons x xs)
  show ?case
  proof (cases "in_cls U k x")
    case True
    have n: "rmatch U as p (x # xs) = None"
      using assms(2)[OF True] rmatch_prev[OF assms(1), of U p "x # xs" None] by simp
    show ?thesis
    proof (cases "rmatch U as None (dropWhile (in_cls U k) xs)")
      case None
      with True n Cons[of "Some x"] show ?thesis by simp
    next
      case (Some a)
      obtain gs r where "a = (gs, r)" by (cases a)
      with Some True n Cons[of "Some x"] show ?thesis by simp
    qed
  next
    case False
    then show ?thesis using rmatch_prev[OF assms(1), of U p "x # xs" None] by simp
  qed
qed

text \<open>A repetition keeps all it can take when the atoms behind it match everywhere.\<close>

lemma rmatch_star_total:
  assumes "WordB \<notin> set as"
    and "\<And>ys. rmatch U as None ys \<noteq> None"
  shows "rmatch U (Star k # as) p s =
         push (takeWhile (in_cls U k) s) (rmatch U as None (dropWhile (in_cls U k) s))"
proof (induction s arbitrary: p)
  case Nil
  show ?case using rmatch_prev[OF assms(1), of U p "[]" None] by simp
next
  case (Cons x xs)
  show ?case
  proof (cases "in_cls U k x")
    case True
    obtain gs r where "rmatch U as None (dropWhile (in_cls U k) xs) = Some (gs, r)"
      using assms(2)[of "dropWhile (in_cls U k) xs"] by auto
    with True Cons[of "Some x"] show ?thesis by simp
  next
    case False
    then show ?thesis using rmatch_prev[OF assms(1), of U p "x # xs" None] by simp
  qed
qed

lemma rmatch_plus:
  "rmatch U (Plus k # as) p s =
     (case s of [] \<Rightarrow> None
      | x # xs \<Rightarrow> if in_cls U k x
          then (case rmatch U (Star k # as) (Some x) xs of
                  None \<Rightarrow> None | Some (gs, r) \<Rightarrow> Some (grow x gs, r))
          else None)"
  by (cases s) (auto split: option.splits)

subsection \<open>Substitution\<close>

lemma scan_skip:
  "k \<le> length s \<Longrightarrow>
   scan U pat rep k p s = scan U pat rep 0 (if k = 0 then p else Some (s ! (k - 1))) (drop k s)"
proof (induction k arbitrary: p s)
  case 0
  then show ?case by simp
next
  case (Suc k)
  then obtain x xs where s: "s = x # xs" by (cases s) auto
  with Suc.prems have "k \<le> length xs" by simp
  from Suc.IH[OF this, of "Some x"] s show ?case by (cases k) auto
qed

lemma scan_nomatch:
  "rmatch U (map atom_of pat) p (x # xs) = None \<Longrightarrow>
   scan U pat rep 0 p (x # xs) = x # scan U pat rep 0 (Some x) xs"
  by simp

lemma scan_match:
  assumes "rmatch U (map atom_of pat) p (x # xs) = Some (gs, r)" and "concat gs \<noteq> []"
  shows "scan U pat rep 0 p (x # xs) =
         expand rep (groups pat gs) @ scan U pat rep 0 (Some (last (concat gs))) r"
proof -
  from rmatch_shape[OF assms(1)] have c: "concat gs @ r = x # xs" by simp
  from assms(2) obtain n where n: "length (concat gs) = Suc n"
    by (cases "concat gs") auto
  from c n have le: "n \<le> length xs"
    by (metis Suc_le_mono length_Cons le_add1 length_append)
  have d: "drop n xs = r"
    using c n by (metis append_eq_conv_conj drop_Suc_Cons)
  have l: "(if n = 0 then Some x else Some (xs ! (n - 1))) = Some (last (concat gs))"
  proof -
    have "last (concat gs) = (x # xs) ! n"
      using c n assms(2)
      by (metis diff_Suc_1 last_conv_nth lessI nth_append)
    then show ?thesis by (cases n) auto
  qed
  show ?thesis
    using assms(1) n scan_skip[OF le, of U pat rep "Some x"] d l by simp
qed

lemma rmatch_shorter:
  assumes "rmatch U as p s = Some (gs, r)" and "concat gs \<noteq> []"
  shows "length r < length s"
  using rmatch_shape[OF assms(1)] assms(2)
  by (metis add_diff_cancel_right' length_append length_greater_0_conv zero_less_diff)

lemma scan_absent:
  assumes "Chr c \<in> set (map atom_of pat)" and "c \<notin> set s"
  shows "scan U pat rep 0 p s = s"
  using assms(2)
proof (induction s arbitrary: p)
  case Nil
  have "rmatch U (map atom_of pat) p [] = None"
    using rmatch_needs[OF _ assms(1), of U p "[]"] by (cases "rmatch U (map atom_of pat) p []") auto
  then show ?case by simp
next
  case (Cons x xs)
  have "rmatch U (map atom_of pat) p (x # xs) = None"
    using rmatch_needs[OF _ assms(1), of U p "x # xs"] Cons.prems
    by (cases "rmatch U (map atom_of pat) p (x # xs)") auto
  with Cons show ?case by simp
qed

lemma re_sub_absent:
  "Chr c \<in> set (map atom_of pat) \<Longrightarrow> c \<notin> set s \<Longrightarrow> re_sub U pat rep s = s"
  by (simp add: re_sub_def scan_absent)


subsection \<open>Whitespace\<close>

lemma space_32 [simp]: "is_space U 32"
  by (simp add: is_space_def)

lemma rmatch_ws:
  "rmatch U [Plus CSpace] p (x # xs) =
     (if is_space U x then Some ([x # takeWhile (is_space U) xs], dropWhile (is_space U) xs)
      else None)"
proof -
  have "in_cls U CSpace = is_space U" by (rule ext) simp
  then show ?thesis using rmatch_star_last[of U CSpace "Some x" xs] by simp
qed

lemma scan_ws:
  "scan U ws_pat [Lit (cps '' '')] 0 p s = collapseWhitespace U s"
proof (induction U s arbitrary: p rule: collapseWhitespace.induct)
  case (1 U)
  then show ?case by (simp add: ws_pat_def)
next
  case (2 U x xs)
  show ?case
  proof (cases "is_space U x")
    case True
    have m: "rmatch U (map atom_of ws_pat) p (x # xs) =
        Some ([x # takeWhile (is_space U) xs], dropWhile (is_space U) xs)"
      using True by (simp add: ws_pat_def rmatch_ws del: rmatch.simps)
    have "scan U ws_pat [Lit (cps '' '')] 0 p (x # xs) =
        expand [Lit (cps '' '')] (groups ws_pat [x # takeWhile (is_space U) xs]) @
        scan U ws_pat [Lit (cps '' '')] 0 (Some (last (concat [x # takeWhile (is_space U) xs])))
          (dropWhile (is_space U) xs)"
      by (rule scan_match[OF m]) simp
    with 2(1)[OF True] True show ?thesis by (simp add: cps_def)
  next
    case False
    have "rmatch U (map atom_of ws_pat) p (x # xs) = None"
      using False by (simp add: ws_pat_def rmatch_ws del: rmatch.simps)
    from scan_nomatch[OF this] 2(2)[OF False] False show ?thesis by simp
  qed
qed

lemma re_sub_ws: "re_sub U ws_pat [Lit (cps '' '')] s = collapseWhitespace U s"
  by (simp add: re_sub_def scan_ws)

lemma py_strip_alt: "py_strip U s = rstrip U (dropWhile (is_space U) s)"
  by (simp add: py_strip_def rstrip_def)

lemma rstrip_Nil [simp]: "rstrip U [] = []"
  by (simp add: rstrip_def)

lemma rstrip_eq_Nil: "rstrip U s = [] \<longleftrightarrow> (\<forall>c \<in> set s. is_space U c)"
  by (simp add: rstrip_def dropWhile_eq_Nil_conv)

lemma rstrip_Cons:
  "rstrip U (x # xs) = (if is_space U x \<and> rstrip U xs = [] then [] else x # rstrip U xs)"
  by (auto simp: rstrip_def dropWhile_append dropWhile_eq_Nil_conv)

lemma lstrip_rstrip:
  "dropWhile (is_space U) (rstrip U s) = rstrip U (dropWhile (is_space U) s)"
  by (induction s) (auto simp: rstrip_Cons)

lemma rstrip_idem: "rstrip U (rstrip U s) = rstrip U s"
  by (induction s) (auto simp: rstrip_Cons)

lemma py_strip_idem: "py_strip U (py_strip U s) = py_strip U s"
  by (simp add: py_strip_alt lstrip_rstrip rstrip_idem)

lemma cw_eq_Nil [simp]: "collapseWhitespace U s = [] \<longleftrightarrow> s = []"
  by (cases s) auto

lemma lstrip_cw:
  "dropWhile (is_space U) (collapseWhitespace U s) = collapseWhitespace U (dropWhile (is_space U) s)"
  by (induction U s rule: collapseWhitespace.induct) auto

lemma rstrip_cw:
  "rstrip U (collapseWhitespace U s) = collapseWhitespace U (rstrip U s)"
proof (induction U s rule: collapseWhitespace.induct)
  case (1 U)
  then show ?case by simp
next
  case (2 U x xs)
  show ?case
  proof (cases "is_space U x")
    case True
    have "dropWhile (is_space U) (dropWhile (is_space U) xs) = [] \<longleftrightarrow>
          dropWhile (is_space U) xs = []"
      by simp
    then have e: "rstrip U (dropWhile (is_space U) xs) = [] \<longleftrightarrow> rstrip U xs = []"
      unfolding rstrip_eq_Nil dropWhile_eq_Nil_conv .
    from 2(1)[OF True] True e show ?thesis
      by (simp add: rstrip_Cons lstrip_rstrip)
  next
    case False
    with 2(2) show ?thesis by (simp add: rstrip_Cons)
  qed
qed

lemma strip_cw: "py_strip U (collapseWhitespace U s) = collapseWhitespace U (py_strip U s)"
  by (simp add: py_strip_alt lstrip_cw rstrip_cw)

lemma cw_idem: "collapseWhitespace U (collapseWhitespace U s) = collapseWhitespace U s"
  by (induction U s rule: collapseWhitespace.induct) (auto simp: lstrip_cw)

lemma squeeze_alt: "squeeze U s = collapseWhitespace U (py_strip U s)"
  by (simp add: squeeze_def re_sub_ws strip_cw)

lemma squeeze_idem: "squeeze U (squeeze U s) = squeeze U s"
  by (simp add: squeeze_alt strip_cw[symmetric] py_strip_idem cw_idem)

lemma set_cw: "set (collapseWhitespace U s) \<subseteq> insert 32 (set s)"
proof (induction U s rule: collapseWhitespace.induct)
  case (1 U)
  show ?case by simp
next
  case (2 U x xs)
  show ?case
  proof (cases "is_space U x")
    case True
    have "set (dropWhile (is_space U) xs) \<subseteq> set xs"
      by (meson set_dropWhileD subsetI)
    with 2(1)[OF True] have "set (collapseWhitespace U (dropWhile (is_space U) xs)) \<subseteq> insert 32 (set xs)"
      by blast
    with True show ?thesis by auto
  next
    case False
    from 2(2)[OF False] False show ?thesis by auto
  qed
qed

lemma set_py_strip: "set (py_strip U s) \<subseteq> set s"
proof -
  have "set (dropWhile (is_space U) (rev (dropWhile (is_space U) s))) \<subseteq> set (rev (dropWhile (is_space U) s))"
    by (meson set_dropWhileD subsetI)
  moreover have "set (dropWhile (is_space U) s) \<subseteq> set s"
    by (meson set_dropWhileD subsetI)
  ultimately show ?thesis by (simp add: py_strip_def)
qed

lemma set_squeeze: "set (squeeze U s) \<subseteq> insert 32 (set s)"
proof -
  have "set (squeeze U s) \<subseteq> insert 32 (set (py_strip U s))"
    unfolding squeeze_alt by (rule set_cw)
  with set_py_strip[of U s] show ?thesis by blast
qed

subsection \<open>Replacement tables\<close>

lemma set_replace_char: "set (replace_char k v s) \<subseteq> (set s - {k}) \<union> set v"
  by (induction s) (auto simp: replace_char_def)

lemma replace_char_absent: "k \<notin> set s \<Longrightarrow> replace_char k v s = s"
  by (induction s) (auto simp: replace_char_def)

lemma replace_all_keys:
  assumes "\<And>k v. (k, v) \<in> set tab \<Longrightarrow> set v \<inter> K = {}"
  shows "set (replace_all tab t) \<inter> K \<subseteq> set t \<inter> K - fst ` set tab"
  using assms
proof (induction tab arbitrary: t)
  case Nil
  show ?case by (simp add: replace_all_def)
next
  case (Cons a tab)
  obtain k v where a: "a = (k, v)" by (cases a)
  have v: "set v \<inter> K = {}" using Cons.prems[of k v] a by simp
  have r: "replace_all ((k, v) # tab) t = replace_all tab (replace_char k v t)"
    by (simp add: replace_all_def)
  have "set (replace_all tab (replace_char k v t)) \<inter> K
        \<subseteq> set (replace_char k v t) \<inter> K - fst ` set tab"
    by (rule Cons.IH) (use Cons.prems in auto)
  moreover have "set (replace_char k v t) \<inter> K \<subseteq> set t \<inter> K - {k}"
    using set_replace_char[of k v t] v by auto
  ultimately have "set (replace_all tab (replace_char k v t)) \<inter> K
        \<subseteq> set t \<inter> K - insert k (fst ` set tab)"
    by blast
  then show ?case unfolding a r by simp
qed

lemma replace_all_absent:
  "set t \<inter> fst ` set tab = {} \<Longrightarrow> replace_all tab t = t"
proof (induction tab arbitrary: t)
  case Nil
  show ?case by (simp add: replace_all_def)
next
  case (Cons a tab)
  obtain k v where a: "a = (k, v)" by (cases a)
  from Cons.prems a have "k \<notin> set t" by auto
  then have "replace_char k v t = t" by (rule replace_char_absent)
  moreover have "replace_all tab t = t" by (rule Cons.IH) (use Cons.prems in auto)
  ultimately show ?case by (simp add: replace_all_def a)
qed

lemma PUNCT_values_all:
  "list_all (\<lambda>(k, v). list_all (\<lambda>c. c = 32 \<or> (97 \<le> c \<and> c \<le> 122)) v) PUNCT"
  by (simp add: PUNCT_def cps_def)

lemma PUNCT_keys: "list_all (\<lambda>(k, v). k \<noteq> 32 \<and> \<not> (97 \<le> k \<and> k \<le> 122)) PUNCT"
  by (simp add: PUNCT_def)

lemma PUNCT_values:
  assumes "(k, v) \<in> set PUNCT"
  shows "set v \<inter> fst ` set PUNCT = {}"
proof -
  have v: "\<forall>c \<in> set v. c = 32 \<or> (97 \<le> c \<and> c \<le> 122)"
    using PUNCT_values_all assms unfolding list_all_iff by blast
  have "\<forall>c \<in> fst ` set PUNCT. c \<noteq> 32 \<and> \<not> (97 \<le> c \<and> c \<le> 122)"
    using PUNCT_keys unfolding list_all_iff by force
  with v show ?thesis by blast
qed

lemma no_punct_alt: "no_punct s \<longleftrightarrow> set s \<inter> fst ` set PUNCT = {}"
  by (auto simp: no_punct_def list_all_iff)

lemma space_not_punct: "32 \<notin> fst ` set PUNCT"
  by (simp add: PUNCT_def)

lemma replace_all_PUNCT: "set (replace_all PUNCT t) \<inter> fst ` set PUNCT = {}"
proof -
  have "set (replace_all PUNCT t) \<inter> fst ` set PUNCT
        \<subseteq> set t \<inter> fst ` set PUNCT - fst ` set PUNCT"
    by (rule replace_all_keys) (rule PUNCT_values)
  then show ?thesis by blast
qed

lemma no_punct_squeeze:
  assumes "set t \<inter> fst ` set PUNCT = {}"
  shows "no_punct (squeeze U t)"
proof -
  have "c \<notin> fst ` set PUNCT" if "c \<in> set (squeeze U t)" for c
  proof -
    from that set_squeeze[of U t] have "c = 32 \<or> c \<in> set t" by auto
    then show ?thesis
    proof
      assume "c = 32"
      then show ?thesis using space_not_punct by simp
    next
      assume "c \<in> set t"
      with assms show ?thesis by auto
    qed
  qed
  then show ?thesis unfolding no_punct_def list_all_iff by simp
qed

lemma no_punct_literalize: "no_punct (literalize_symbols U t)"
  unfolding literalize_symbols_def by (rule no_punct_squeeze) (rule replace_all_PUNCT)

lemma no_punct_literal: "no_punct (to_spoken_english U Literal s)"
  by (simp add: to_spoken_english_def no_punct_literalize)

lemma hyphen_punct: "45 \<in> fst ` set PUNCT"
  by (simp add: PUNCT_def)

subsection \<open>Markup-free text\<close>

lemma markup_free_chars:
  assumes "markup_free s"
  shows "92 \<notin> set s" "96 \<notin> set s" "38 \<notin> set s" "40 \<notin> set s" "94 \<notin> set s"
    "set s \<inter> fst ` set SYMBOLS = {}" "set s \<inter> fst ` set PUNCT = {}"
proof -
  have m: "c \<notin> set MARKUP" if "c \<in> set s" for c
    using assms that by (simp add: markup_free_def)
  have k: "c \<notin> set s" if "c \<in> set MARKUP" for c
    using m that by auto
  show "92 \<notin> set s" by (rule k) (simp add: MARKUP_def)
  show "96 \<notin> set s" by (rule k) (simp add: MARKUP_def)
  show "38 \<notin> set s" by (rule k) (simp add: MARKUP_def)
  show "40 \<notin> set s" by (rule k) (simp add: MARKUP_def PUNCT_def)
  show "94 \<notin> set s" by (rule k) (simp add: MARKUP_def PUNCT_def)
  show "set s \<inter> fst ` set SYMBOLS = {}" using m by (auto simp: MARKUP_def)
  show "set s \<inter> fst ` set PUNCT = {}" using m by (auto simp: MARKUP_def)
qed

lemma apply_latex_pairs_absent:
  assumes "92 \<notin> set s" and "38 \<notin> set s"
  shows "apply_latex_pairs U s = s"
proof -
  have bs: "re_sub U (Plain (Chr 92) # pat) rep s = s" for pat rep
    by (rule re_sub_absent[of 92]) (simp_all add: assms)
  have amp: "re_sub U (lit ''&'') rep s = s" for rep
    by (rule re_sub_absent[of 38]) (simp_all add: assms lit_def)
  show ?thesis
    by (simp add: apply_latex_pairs_def LATEX_PAIRS_def bs amp)
qed

lemma speakify_markup_free:
  assumes "markup_free s"
  shows "speakify_math U s = squeeze U s"
proof -
  note c = markup_free_chars[OF assms]
  have 1: "re_sub U backtick_pat rep s = s" for rep
    by (rule re_sub_absent[of 96]) (simp_all add: c backtick_pat_def)
  have 2: "apply_latex_pairs U s = s"
    by (rule apply_latex_pairs_absent) (rule c)+
  have 3: "re_sub U bigO_pat rep s = s" for rep
    by (rule re_sub_absent[of 40]) (simp_all add: c bigO_pat_def)
  have 4: "re_sub U power_pat rep s = s" for rep
    by (rule re_sub_absent[of 94]) (simp_all add: c power_pat_def)
  have 5: "replace_all SYMBOLS s = s"
    by (rule replace_all_absent) (rule c)
  show ?thesis by (simp add: speakify_math_def 1 2 3 4 5)
qed

lemma space_not_markup: "32 \<notin> set MARKUP"
  by (simp add: MARKUP_def SYMBOLS_def PUNCT_def)

lemma markup_free_squeeze:
  assumes "markup_free s"
  shows "markup_free (squeeze U s)"
proof -
  have "c \<notin> set MARKUP" if "c \<in> set (squeeze U s)" for c
  proof -
    from that set_squeeze[of U s] have "c = 32 \<or> c \<in> set s" by auto
    then show ?thesis
    proof
      assume "c = 32"
      then show ?thesis using space_not_markup by simp
    next
      assume "c \<in> set s"
      with assms show ?thesis by (simp add: markup_free_def)
    qed
  qed
  then show ?thesis by (simp add: markup_free_def)
qed

lemma literalize_markup_free:
  assumes "markup_free s"
  shows "literalize_symbols U s = squeeze U s"
  by (simp add: literalize_symbols_def replace_all_absent markup_free_chars(7)[OF assms])

lemma normalize_markup_free:
  assumes "markup_free s"
  shows "to_spoken_english U m s = squeeze U s"
proof -
  have "literalize_symbols U (squeeze U s) = squeeze U s"
    using literalize_markup_free[OF markup_free_squeeze[OF assms], of U U]
    by (simp add: squeeze_idem)
  then show ?thesis
    by (cases m) (simp_all add: to_spoken_english_def Let_def speakify_markup_free[OF assms])
qed

lemma cmd_free_Cons: "cmd_free (x # t) \<longleftrightarrow> \<not> (x = 92 \<and> starts_alpha t) \<and> cmd_free t"
  by (cases t) (auto simp: starts_alpha_def)

lemma not_starts_alpha_dropWhile: "\<not> starts_alpha (dropWhile is_alpha s)"
  by (induction s) (auto simp: starts_alpha_def)

lemma rmatch_catchall:
  "rmatch U (map atom_of catchall_pat) p (x # xs) =
     (if x = 92 \<and> starts_alpha xs
      then Some ([[92], hd xs # takeWhile is_alpha (tl xs)], dropWhile is_alpha (tl xs))
      else None)"
proof -
  have c: "in_cls U CAlpha = is_alpha" by (rule ext) simp
  show ?thesis
    by (cases xs) (simp_all add: catchall_pat_def starts_alpha_def rmatch_star_last c)
qed

lemma rmatch_catchall_Nil: "rmatch U (map atom_of catchall_pat) p [] = None"
  by (simp add: catchall_pat_def)

lemma scan_catchall:
  "cmd_free (scan U catchall_pat [] 0 p s) \<and>
   (starts_alpha (scan U catchall_pat [] 0 p s) \<longrightarrow> starts_alpha s)"
proof (induction s arbitrary: p rule: length_induct)
  case (1 s)
  show ?case
  proof (cases s)
    case Nil
    then show ?thesis by (simp add: rmatch_catchall_Nil starts_alpha_def)
  next
    case (Cons x xs)
    show ?thesis
    proof (cases "x = 92 \<and> starts_alpha xs")
      case True
      let ?r = "dropWhile is_alpha (tl xs)"
      have m: "rmatch U (map atom_of catchall_pat) p (x # xs) =
          Some ([[92], hd xs # takeWhile is_alpha (tl xs)], ?r)"
        using True by (simp add: rmatch_catchall del: rmatch.simps)
      have e: "scan U catchall_pat [] 0 p (x # xs) =
          expand [] (groups catchall_pat [[92], hd xs # takeWhile is_alpha (tl xs)]) @
          scan U catchall_pat [] 0 (Some (last (concat [[92], hd xs # takeWhile is_alpha (tl xs)]))) ?r"
        by (rule scan_match[OF m]) simp
      have "length ?r < length s"
        using Cons by (simp add: less_Suc_eq_le le_trans[OF length_dropWhile_le])
      with 1 have ih: "cmd_free (scan U catchall_pat [] 0 q ?r) \<and>
          (starts_alpha (scan U catchall_pat [] 0 q ?r) \<longrightarrow> starts_alpha ?r)" for q
        by blast
      from ih not_starts_alpha_dropWhile[of "tl xs"]
      have "cmd_free (scan U catchall_pat [] 0 q ?r) \<and>
          \<not> starts_alpha (scan U catchall_pat [] 0 q ?r)" for q
        by blast
      with e Cons show ?thesis by simp
    next
      case False
      then have m: "rmatch U (map atom_of catchall_pat) p (x # xs) = None"
        by (simp add: rmatch_catchall del: rmatch.simps)
      have e: "scan U catchall_pat [] 0 p (x # xs) = x # scan U catchall_pat [] 0 (Some x) xs"
        by (rule scan_nomatch[OF m])
      have "length xs < length s" using Cons by simp
      with 1 have ih: "cmd_free (scan U catchall_pat [] 0 (Some x) xs) \<and>
          (starts_alpha (scan U catchall_pat [] 0 (Some x) xs) \<longrightarrow> starts_alpha xs)"
        by blast
      have "starts_alpha (x # t) = starts_alpha (x # xs)" for t
        by (simp add: starts_alpha_def)
      with e ih False Cons show ?thesis by (auto simp: cmd_free_Cons)
    qed
  qed
qed

lemma cmd_free_catchall: "cmd_free (re_sub U catchall_pat [] t)"
  using scan_catchall[of U None t] by (simp add: re_sub_def)

lemma apply_latex_pairs_last:
  "apply_latex_pairs U t =
     re_sub U catchall_pat []
       (foldl (\<lambda>t (pat, rep). re_sub U pat rep t) t (butlast LATEX_PAIRS))"
  by (simp add: apply_latex_pairs_def LATEX_PAIRS_def catchall_pat_def)

lemma cmd_free_latex_pairs: "cmd_free (apply_latex_pairs U t)"
  unfolding apply_latex_pairs_last by (rule cmd_free_catchall)

subsection \<open>Option labels\<close>

lemma space_not_alpha: "is_space U y \<Longrightarrow> \<not> is_alpha y"
  by (auto simp: is_space_def is_alpha_def split: if_splits)

lemma space_not_colon: "\<not> is_space U 58"
  by (simp add: is_space_def)

lemma in_cls_fun:
  "in_cls U CSpace = is_space U" "in_cls U CDot = (\<lambda>c. c \<noteq> 10)" "in_cls U CAlpha = is_alpha"
  by (rule ext, simp)+

lemma rmatch_body:
  "rmatch U [Star CSpace, Star CDot] p s =
     Some ([takeWhile (is_space U) s, takeWhile (\<lambda>c. c \<noteq> 10) (dropWhile (is_space U) s)],
           dropWhile (\<lambda>c. c \<noteq> 10) (dropWhile (is_space U) s))"
proof -
  have "rmatch U (Star CSpace # [Star CDot]) p s =
        push (takeWhile (in_cls U CSpace) s)
          (rmatch U [Star CDot] None (dropWhile (in_cls U CSpace) s))"
    by (rule rmatch_star_total) (simp_all add: rmatch_star_last)
  then show ?thesis
    by (simp add: rmatch_star_last in_cls_fun del: rmatch.simps)
qed

lemma rmatch_colon:
  "rmatch U (Star CSpace # [Chr 58, Star CSpace, Star CDot]) p s =
     (case dropWhile (is_space U) s of
        [] \<Rightarrow> None
      | c # r \<Rightarrow>
          if c = 58
          then Some ([takeWhile (is_space U) s, [58], takeWhile (is_space U) r,
                      takeWhile (\<lambda>c. c \<noteq> 10) (dropWhile (is_space U) r)],
                     dropWhile (\<lambda>c. c \<noteq> 10) (dropWhile (is_space U) r))
          else None)"
proof -
  have "rmatch U (Star CSpace # [Chr 58, Star CSpace, Star CDot]) p s =
        push (takeWhile (in_cls U CSpace) s)
          (rmatch U [Chr 58, Star CSpace, Star CDot] None (dropWhile (in_cls U CSpace) s))"
  proof (rule rmatch_star_commit)
    show "WordB \<notin> set [Chr 58, Star CSpace, Star CDot]" by simp
  next
    fix y ys
    assume "in_cls U CSpace y"
    then have "y \<noteq> 58" using space_not_colon[of U] by auto
    then show "rmatch U [Chr 58, Star CSpace, Star CDot] None (y # ys) = None" by simp
  qed
  then show ?thesis
    by (cases "dropWhile (is_space U) s") (simp_all add: rmatch_body in_cls_fun del: rmatch.simps(6,7) dropWhile_eq_Nil_conv)
qed

lemma rmatch_letter:
  "rmatch U (Star CSpace # [One CAlpha, Star CSpace, Chr 58, Star CSpace, Star CDot]) p s =
     (case dropWhile (is_space U) s of
        [] \<Rightarrow> None
      | l # r1 \<Rightarrow>
          if is_alpha l then
            (case dropWhile (is_space U) r1 of
               [] \<Rightarrow> None
             | c # r2 \<Rightarrow>
                 if c = 58
                 then Some ([takeWhile (is_space U) s, [l], takeWhile (is_space U) r1, [58],
                             takeWhile (is_space U) r2,
                             takeWhile (\<lambda>c. c \<noteq> 10) (dropWhile (is_space U) r2)],
                            dropWhile (\<lambda>c. c \<noteq> 10) (dropWhile (is_space U) r2))
                 else None)
          else None)"
proof -
  have "rmatch U (Star CSpace # [One CAlpha, Star CSpace, Chr 58, Star CSpace, Star CDot]) p s =
        push (takeWhile (in_cls U CSpace) s)
          (rmatch U [One CAlpha, Star CSpace, Chr 58, Star CSpace, Star CDot] None
             (dropWhile (in_cls U CSpace) s))"
  proof (rule rmatch_star_commit)
    show "WordB \<notin> set [One CAlpha, Star CSpace, Chr 58, Star CSpace, Star CDot]" by simp
  next
    fix y ys
    assume "in_cls U CSpace y"
    then have "\<not> is_alpha y" using space_not_alpha[of U y] by simp
    then show "rmatch U [One CAlpha, Star CSpace, Chr 58, Star CSpace, Star CDot] None (y # ys) = None"
      by simp
  qed
  then show ?thesis
    by (cases "dropWhile (is_space U) s")
       (simp_all add: rmatch_colon in_cls_fun del: rmatch.simps(6,7) dropWhile_eq_Nil_conv split: list.splits)
qed

lemma re_match_label:
  "re_match U label_pat s = map_option (\<lambda>(l, b). [[l], b]) (split_label U s)"
  by (simp add: re_match_def label_pat_def rmatch_letter split_label_def groups_def
           del: rmatch.simps dropWhile_eq_Nil_conv split: list.splits)

lemma re_match_answer:
  "re_match U answer_pat s = map_option (\<lambda>(l, b). [b]) (split_label U s)"
  by (simp add: re_match_def answer_pat_def rmatch_letter split_label_def groups_def
           del: rmatch.simps dropWhile_eq_Nil_conv split: list.splits)

lemma option_label_alt:
  "option_label U i opt =
     (case split_label U opt of
        Some (l, b) \<Rightarrow> Inr ([upper l], b)
      | None \<Rightarrow> if i < length letters then Inr (letters ! i, opt) else Inl IndexError)"
  by (simp add: option_label_def re_match_label group_def split: option.splits)

lemma answer_body_alt:
  "answer_body U raw = (case split_label U raw of Some (l, b) \<Rightarrow> b | None \<Rightarrow> raw)"
  by (simp add: answer_body_def re_match_answer group_def split: option.splits)

lemma py_error_eq [simp]: "(e :: py_error) = IndexError \<longleftrightarrow> True"
  by (cases e) simp

lemma spoken_opts_alt:
  "spoken_opts U m i opts =
     (if labels_suffice U i opts then Inr (map (expected_option U m) (enumerate i opts))
      else Inl IndexError)"
proof (induction opts arbitrary: i)
  case Nil
  show ?case by (simp add: labels_suffice_def)
next
  case (Cons opt rest)
  show ?case
    using Cons[of "Suc i"]
    by (cases "split_label U opt")
       (auto simp: labels_suffice_def option_label_alt expected_option_def spoken_option_def
                   expected_label_def expected_body_def)
qed

lemma build_question_parts_alt:
  "build_question_parts U m q_idx topic q_text options =
     (if labels_suffice U 0 options
      then Inr (INTRO_PROMPT @ cps '' '' @ to_spoken_english U m q_text @ cps ''.'',
                join (cps '' '') (map (expected_option U m) (enumerate 0 options)))
      else Inl IndexError)"
  by (simp add: build_question_parts_def spoken_opts_alt)

lemma labels_suffice_nth:
  "labels_suffice U i opts \<longleftrightarrow>
     (\<forall>j < length opts. split_label U (opts ! j) = None \<longrightarrow> i + j < length letters)"
  by (auto simp: labels_suffice_def list_all_length nth_enumerate_eq)

lemma split_label_strict:
  "is_alpha l \<Longrightarrow>
   split_label U (l # 58 # rest) =
     Some (l, takeWhile (\<lambda>c. c \<noteq> 10) (dropWhile (is_space U) rest))"
  using space_not_alpha[of U l] space_not_colon[of U] by (auto simp: split_label_def)

subsection \<open>The main loop\<close>

lemma join_nonempty: "xs \<noteq> [] \<Longrightarrow> hd xs \<noteq> [] \<Longrightarrow> join sep xs \<noteq> []"
proof (cases xs)
  case Nil
  assume "xs \<noteq> []"
  with Nil show ?thesis by simp
next
  case (Cons x ys)
  assume "hd xs \<noteq> []"
  with Cons show ?thesis by (cases ys) simp_all
qed

lemma expected_option_nonempty: "expected_option U m jo \<noteq> []"
  by (simp add: expected_option_def cps_def)

lemma options_segment_nonempty:
  assumes "options \<noteq> []"
  shows "join sep (map (expected_option U m) (enumerate 0 options)) \<noteq> []"
proof (rule join_nonempty)
  show "map (expected_option U m) (enumerate 0 options) \<noteq> []"
    using assms by (cases options) simp_all
  show "hd (map (expected_option U m) (enumerate 0 options)) \<noteq> []"
    using assms by (cases options) (simp_all add: expected_option_nonempty)
qed

lemma build_answer_text_in_range:
  assumes "0 \<le> ci" "ci < int (length options)"
  shows "\<exists>ans. build_answer_text U m ci options = Inr ans \<and> ans \<noteq> []"
  using assms by (simp add: build_answer_text_def py_index_def Let_def cps_def)

subsection \<open>Substrings of the segments\<close>

lemma take_eq_iff: "take (length n) s = n \<longleftrightarrow> (\<exists>b. s = n @ b)"
proof
  assume "take (length n) s = n"
  then have "s = n @ drop (length n) s" by (metis append_take_drop_id)
  then show "\<exists>b. s = n @ b" ..
next
  assume "\<exists>b. s = n @ b"
  then show "take (length n) s = n" by auto
qed

lemma contains_iff: "contains n s \<longleftrightarrow> (\<exists>a b. s = a @ n @ b)"
proof (induction s)
  case Nil
  show ?case by auto
next
  case (Cons x xs)
  show ?case
  proof
    assume "contains n (x # xs)"
    then consider "take (length n) (x # xs) = n" | "contains n xs" by auto
    then show "\<exists>a b. x # xs = a @ n @ b"
    proof cases
      case 1
      then obtain b where "x # xs = n @ b" unfolding take_eq_iff ..
      then have "x # xs = [] @ n @ b" by simp
      then show ?thesis by blast
    next
      case 2
      then obtain a b where "xs = a @ n @ b" using Cons by blast
      then have "x # xs = (x # a) @ n @ b" by simp
      then show ?thesis by blast
    qed
  next
    assume "\<exists>a b. x # xs = a @ n @ b"
    then obtain a b where e: "x # xs = a @ n @ b" by blast
    show "contains n (x # xs)"
    proof (cases a)
      case Nil
      with e have "take (length n) (x # xs) = n" unfolding take_eq_iff by auto
      then show ?thesis by simp
    next
      case (Cons y ys)
      with e have "xs = ys @ n @ b" by simp
      then have "contains n xs" using Cons.IH by blast
      then show ?thesis by simp
    qed
  qed
qed

lemma contains_short: "length s < length n \<Longrightarrow> \<not> contains n s"
  by (auto simp: contains_iff)

lemma contains_hd: "contains n s \<Longrightarrow> n \<noteq> [] \<Longrightarrow> hd n \<in> set s"
  by (cases n) (auto simp: contains_iff)

lemma contains_Cons: "n \<noteq> [] \<Longrightarrow> hd n \<noteq> x \<Longrightarrow> contains n (x # s) = contains n s"
  by (cases n) auto

lemma contains_sep:
  assumes "c \<notin> set n"
  shows "contains n (a @ c # b) \<longleftrightarrow> contains n a \<or> contains n b"
proof
  assume "contains n (a @ c # b)"
  then obtain p q where e: "a @ c # b = p @ n @ q" unfolding contains_iff by blast
  then consider us where "a = p @ us" "us @ c # b = n @ q" | us where "a @ us = p" "c # b = us @ n @ q"
    unfolding append_eq_append_conv2 by blast
  then show "contains n a \<or> contains n b"
  proof cases
    case 1
    from 1(2) consider vs where "us = n @ vs" | vs where "us @ vs = n" "c # b = vs @ q"
      unfolding append_eq_append_conv2 by blast
    then show ?thesis
    proof cases
      case 1
      with \<open>a = p @ us\<close> have "a = p @ n @ vs" by simp
      then show ?thesis unfolding contains_iff by blast
    next
      case 2
      show ?thesis
      proof (cases vs)
        case Nil
        with 2 \<open>a = p @ us\<close> have "a = p @ n @ []" by simp
        then show ?thesis unfolding contains_iff by blast
      next
        case (Cons v vs')
        with 2 have "c \<in> set n" by auto
        with assms show ?thesis by simp
      qed
    qed
  next
    case 2
    show ?thesis
    proof (cases us)
      case Nil
      with 2 have "c # b = n @ q" by simp
      with assms have "n = []" by (cases n) auto
      then have "a = a @ n @ []" by simp
      then show ?thesis unfolding contains_iff by blast
    next
      case (Cons u us')
      with 2 have "b = us' @ n @ q" by simp
      then show ?thesis unfolding contains_iff by blast
    qed
  qed
next
  assume "contains n a \<or> contains n b"
  then show "contains n (a @ c # b)"
  proof
    assume "contains n a"
    then obtain p q where "a = p @ n @ q" unfolding contains_iff by blast
    then have "a @ c # b = p @ n @ (q @ c # b)" by simp
    then show ?thesis unfolding contains_iff by blast
  next
    assume "contains n b"
    then obtain p q where "b = p @ n @ q" unfolding contains_iff by blast
    then have "a @ c # b = (a @ c # p) @ n @ q" by simp
    then show ?thesis unfolding contains_iff by blast
  qed
qed

lemma contains_question_segment:
  assumes "n \<noteq> []" "hd n \<noteq> 32" "46 \<notin> set n" "hd n \<notin> set INTRO_PROMPT"
  shows "contains n (INTRO_PROMPT @ cps '' '' @ f @ cps ''.'') \<longleftrightarrow> contains n f"
proof -
  have i: "INTRO_PROMPT = butlast INTRO_PROMPT @ [46]" by code_simp
  have "set (butlast INTRO_PROMPT) \<subseteq> set INTRO_PROMPT" by (meson in_set_butlastD subsetI)
  with assms(1,4) have b: "\<not> contains n (butlast INTRO_PROMPT)" using contains_hd by blast
  have "INTRO_PROMPT @ cps '' '' @ f @ cps ''.'' = butlast INTRO_PROMPT @ 46 # (32 # (f @ 46 # []))"
    using i by (simp add: cps_def)
  then show ?thesis
    using b assms(1)
    by (simp add: contains_sep[OF assms(3)] contains_Cons[OF assms(1,2)] del: contains.simps(2))
qed

lemma contains_option:
  assumes "n \<noteq> []" "hd n \<noteq> 32" "46 \<notin> set n" "58 \<notin> set n"
    and "\<not> contains n (cps ''Option '' @ L)"
  shows "contains n (cps ''Option '' @ L @ cps '': '' @ f @ cps ''.'') \<longleftrightarrow> contains n f"
proof -
  have "cps ''Option '' @ L @ cps '': '' @ f @ cps ''.'' = (cps ''Option '' @ L) @ 58 # (32 # (f @ 46 # []))"
    by (simp add: cps_def)
  then show ?thesis
    using assms(1,5)
    by (simp add: contains_sep[OF assms(3)] contains_sep[OF assms(4)] contains_Cons[OF assms(1,2)]
             del: append_assoc contains.simps(2))
qed

lemma join_Cons: "join sep (x # xs) = (if xs = [] then x else x @ sep @ join sep xs)"
  by (cases xs) simp_all

lemma contains_join:
  assumes "n \<noteq> []" "hd n \<noteq> 32" "46 \<notin> set n"
    and "\<And>x. x \<in> set xs \<Longrightarrow> contains n (g x @ cps ''.'') \<longleftrightarrow> P x"
  shows "contains n (join (cps '' '') (map (\<lambda>x. g x @ cps ''.'') xs)) \<longleftrightarrow> (\<exists>x \<in> set xs. P x)"
  using assms(4)
proof (induction xs)
  case Nil
  show ?case using assms(1) by simp
next
  case (Cons x xs)
  have h: "contains n (g x @ cps ''.'') \<longleftrightarrow> P x" using Cons.prems by simp
  have ih: "contains n (join (cps '' '') (map (\<lambda>x. g x @ cps ''.'') xs)) \<longleftrightarrow> (\<exists>x \<in> set xs. P x)"
    using Cons.IH Cons.prems by simp
  show ?case
  proof (cases xs)
    case Nil
    then show ?thesis using h by simp
  next
    case (Cons y ys)
    have g: "contains n (g x) \<longleftrightarrow> P x"
      using h assms(1) by (simp add: cps_def contains_sep[OF assms(3)])
    have "join (cps '' '') (map (\<lambda>x. g x @ cps ''.'') (x # xs))
          = g x @ 46 # (32 # join (cps '' '') (map (\<lambda>x. g x @ cps ''.'') xs))"
      using Cons by (simp add: cps_def)
    then show ?thesis
      using g ih
      by (simp add: contains_sep[OF assms(3)] contains_Cons[OF assms(1,2)] del: contains.simps(2))
  qed
qed

lemma letters_length: "j < length letters \<Longrightarrow> length (letters ! j) = 1"
proof -
  have "\<forall>x \<in> set letters. length x = 1" by (simp add: letters_def cps_def)
  then show "j < length letters \<Longrightarrow> length (letters ! j) = 1" by simp
qed

lemma expected_label_length:
  "split_label U opt = None \<longrightarrow> j < length letters \<Longrightarrow> length (expected_label U j opt) = 1"
  by (cases "split_label U opt") (auto simp: expected_label_def letters_length)

lemma contains_options_segment:
  assumes "n \<noteq> []" "hd n \<noteq> 32" "46 \<notin> set n" "58 \<notin> set n"
    and "\<And>L. length L = 1 \<Longrightarrow> \<not> contains n (cps ''Option '' @ L)"
    and "labels_suffice U i options"
  shows "contains n (join (cps '' '') (map (expected_option U m) (enumerate i options))) \<longleftrightarrow>
         (\<exists>opt \<in> set options. contains n (to_spoken_english U m (expected_body U opt)))"
proof -
  let ?g = "\<lambda>jo. cps ''Option '' @ expected_label U (fst jo) (snd jo) @ cps '': '' @
              to_spoken_english U m (expected_body U (snd jo))"
  let ?P = "\<lambda>jo. contains n (to_spoken_english U m (expected_body U (snd jo)))"
  have e: "expected_option U m = (\<lambda>jo. ?g jo @ cps ''.'')"
    by (rule ext) (simp add: expected_option_def)
  have "contains n (join (cps '' '') (map (\<lambda>jo. ?g jo @ cps ''.'') (enumerate i options)))
        \<longleftrightarrow> (\<exists>jo \<in> set (enumerate i options). ?P jo)"
  proof (rule contains_join[OF assms(1-3)])
    fix jo
    assume "jo \<in> set (enumerate i options)"
    with assms(6) have "split_label U (snd jo) = None \<longrightarrow> fst jo < length letters"
      by (auto simp: labels_suffice_def list_all_iff)
    then have "length (expected_label U (fst jo) (snd jo)) = 1" by (rule expected_label_length)
    then have "\<not> contains n (cps ''Option '' @ expected_label U (fst jo) (snd jo))" by (rule assms(5))
    from contains_option[OF assms(1-4) this]
    show "contains n (?g jo @ cps ''.'') \<longleftrightarrow> ?P jo" by simp
  qed
  moreover have "(\<exists>jo \<in> set (enumerate i options). ?P jo) \<longleftrightarrow>
                 (\<exists>opt \<in> set options. contains n (to_spoken_english U m (expected_body U opt)))"
  proof -
    have "snd ` set (enumerate i options) = set options" by (metis map_snd_enumerate set_map)
    then show ?thesis by force
  qed
  ultimately show ?thesis unfolding e by simp
qed

lemma Topic_needle:
  "cps ''Topic'' \<noteq> []" "hd (cps ''Topic'') \<noteq> 32" "46 \<notin> set (cps ''Topic'')"
  "58 \<notin> set (cps ''Topic'')" "hd (cps ''Topic'') \<notin> set INTRO_PROMPT"
  by code_simp+

lemma Topic_label: "length L = 1 \<Longrightarrow> \<not> contains (cps ''Topic'') (cps ''Option '' @ L)"
proof -
  assume l: "length L = 1"
  have s: "32 \<notin> set (cps ''Topic'')" by code_simp
  have o: "\<not> contains (cps ''Topic'') (cps ''Option'')" by code_simp
  have "cps ''Option '' @ L = cps ''Option'' @ 32 # L" by (simp add: cps_def)
  moreover have "\<not> contains (cps ''Topic'') L" using l by (intro contains_short) (simp add: cps_def)
  ultimately show ?thesis using o by (simp add: contains_sep[OF s])
qed

lemma Question_needle:
  assumes "d \<noteq> 46" "d \<noteq> 58"
  shows "cps ''Question '' @ [d] \<noteq> []" "hd (cps ''Question '' @ [d]) \<noteq> 32"
    "46 \<notin> set (cps ''Question '' @ [d])" "58 \<notin> set (cps ''Question '' @ [d])"
    "hd (cps ''Question '' @ [d]) \<notin> set INTRO_PROMPT"
  using assms by (simp_all add: cps_def INTRO_PROMPT_def)

lemma Question_label: "length L = 1 \<Longrightarrow> \<not> contains (cps ''Question '' @ [d]) (cps ''Option '' @ L)"
  by (intro contains_short) (simp add: cps_def)

lemma question_marker_alt:
  "question_marker s \<longleftrightarrow> (\<exists>d \<in> {48 ..< 58}. contains (cps ''Question '' @ [d]) s)"
  by (simp only: question_marker_def list_ex_iff set_upt)

subsection \<open>Punctuation of the framing\<close>

lemma no_punct_label: "is_alpha l \<Longrightarrow> no_punct [upper l]"
  by (auto simp: no_punct_def is_alpha_def upper_def PUNCT_def)

lemma no_punct_letters: "j < length letters \<Longrightarrow> no_punct (letters ! j)"
proof -
  have "\<forall>x \<in> set letters. no_punct x" by code_simp
  then show "j < length letters \<Longrightarrow> no_punct (letters ! j)" by simp
qed

lemma split_label_alpha: "split_label U opt = Some (l, b) \<Longrightarrow> is_alpha l"
  by (auto simp: split_label_def split: list.splits if_splits)

lemma no_punct_expected_label:
  "split_label U opt = None \<longrightarrow> j < length letters \<Longrightarrow> no_punct (expected_label U j opt)"
  by (cases "split_label U opt")
     (auto simp: expected_label_def no_punct_letters no_punct_label dest: split_label_alpha)

subsection \<open>The replace chain as one pass\<close>

lemma concat_map_unchanged:
  "(\<And>c. c \<in> set v \<Longrightarrow> f c = [c]) \<Longrightarrow> concat (map f v) = v"
  by (induction v) simp_all

lemma concat_map_concat2:
  "concat (map f (concat xss)) = concat (map (\<lambda>xs. concat (map f xs)) xss)"
  by (induction xss) simp_all

lemma replace_all_Cons: "replace_all ((k, v) # tab) t = replace_all tab (replace_char k v t)"
  by (simp add: replace_all_def)

lemma replace_all_one_pass:
  assumes "\<And>k v. (k, v) \<in> set tab \<Longrightarrow> set v \<inter> fst ` set tab = {}"
  shows "replace_all tab t =
         concat (map (\<lambda>c. case map_of tab c of Some w \<Rightarrow> w | None \<Rightarrow> [c]) t)"
  using assms
proof (induction tab arbitrary: t)
  case Nil
  show ?case by (simp add: replace_all_def)
next
  case (Cons a tab)
  obtain k v where a: "a = (k, v)" by (cases a)
  let ?f = "\<lambda>c. case map_of tab c of Some w \<Rightarrow> w | None \<Rightarrow> [c]"
  let ?g = "\<lambda>c. case map_of ((k, v) # tab) c of Some w \<Rightarrow> w | None \<Rightarrow> [c]"
  have ih: "replace_all tab u = concat (map ?f u)" for u
    by (rule Cons.IH) (use Cons.prems in auto)
  have "set v \<inter> fst ` set tab = {}" using Cons.prems[of k v] a by auto
  then have "map_of tab c = None" if "c \<in> set v" for c
    using that by (metis disjoint_iff map_of_eq_None_iff)
  then have v: "concat (map ?f v) = v"
    by (intro concat_map_unchanged) simp
  have step: "concat (map ?f (if c = k then v else [c])) = ?g c" for c
    using v by simp
  have "replace_all (a # tab) t = concat (map ?f (replace_char k v t))"
    unfolding a replace_all_Cons by (rule ih)
  also have "\<dots> = concat (map (\<lambda>c. concat (map ?f (if c = k then v else [c]))) t)"
    by (simp add: replace_char_def concat_map_concat2 comp_def)
  also have "\<dots> = concat (map ?g t)"
    by (simp only: step)
  finally show ?case unfolding a .
qed

lemma literalize_one_pass: "literalize_symbols U t = squeeze U (concat (map spell_out t))"
proof -
  have "replace_all PUNCT t =
        concat (map (\<lambda>c. case map_of PUNCT c of Some w \<Rightarrow> w | None \<Rightarrow> [c]) t)"
    by (rule replace_all_one_pass) (rule PUNCT_values)
  then show ?thesis by (simp add: literalize_symbols_def spell_out_def[abs_def])
qed

lemma speakify_plain:
  assumes "92 \<notin> set s" "96 \<notin> set s" "38 \<notin> set s" "40 \<notin> set s" "94 \<notin> set s"
    and "set s \<inter> fst ` set SYMBOLS = {}"
  shows "speakify_math U s = squeeze U s"
proof -
  have 1: "re_sub U backtick_pat rep s = s" for rep
    by (rule re_sub_absent[of 96]) (simp_all add: assms backtick_pat_def)
  have 2: "apply_latex_pairs U s = s"
    by (rule apply_latex_pairs_absent) (rule assms)+
  have 3: "re_sub U bigO_pat rep s = s" for rep
    by (rule re_sub_absent[of 40]) (simp_all add: assms bigO_pat_def)
  have 4: "re_sub U power_pat rep s = s" for rep
    by (rule re_sub_absent[of 94]) (simp_all add: assms power_pat_def)
  have 5: "replace_all SYMBOLS s = s"
    by (rule replace_all_absent) (rule assms)
  show ?thesis by (simp add: speakify_math_def 1 2 3 4 5)
qed

lemma cw_nospace: "(\<And>c. c \<in> set a \<Longrightarrow> \<not> is_space U c) \<Longrightarrow>
   collapseWhitespace U (a @ t) = a @ collapseWhitespace U t"
  by (induction a) simp_all

lemma py_strip_id:
  assumes "s \<noteq> []" "\<not> is_space U (hd s)" "\<not> is_space U (last s)"
  shows "py_strip U s = s"
proof -
  from assms have 1: "dropWhile (is_space U) s = s" by (cases s) auto
  from assms have "dropWhile (is_space U) (rev s) = rev s"
    by (cases "rev s") (auto simp: hd_rev)
  with 1 show ?thesis by (simp add: py_strip_def)
qed

lemma alpha_facts:
  assumes "is_alpha c"
  shows "\<not> is_space U c" "map_of PUNCT c = None" "c \<notin> fst ` set SYMBOLS"
    "c \<noteq> 92" "c \<noteq> 96" "c \<noteq> 38" "c \<noteq> 40" "c \<noteq> 94" "c \<noteq> 45"
  using assms by (auto simp: is_alpha_def is_space_def PUNCT_def SYMBOLS_def)

lemma hyphen_in_word:
  assumes "a \<noteq> []" "b \<noteq> []" "list_all is_alpha (a @ b)"
  shows "to_spoken_english U Literal (a @ 45 # b) = a @ cps '' minus '' @ b"
proof -
  have al: "is_alpha c" if "c \<in> set a \<or> c \<in> set b" for c
    using assms(3) that by (auto simp: list_all_iff)
  have h: "\<not> is_space U 45" by (simp add: is_space_def)
  have ns: "\<not> is_space U c" if "c \<in> set (a @ 45 # b)" for c
  proof (cases "c = 45")
    case True
    with h show ?thesis by simp
  next
    case False
    with that have "c \<in> set a \<or> c \<in> set b" by auto
    then show ?thesis using al alpha_facts(1) by blast
  qed
  have "speakify_math U (a @ 45 # b) = squeeze U (a @ 45 # b)"
  proof (rule speakify_plain)
    show "92 \<notin> set (a @ 45 # b)" using al alpha_facts(4) by auto
    show "96 \<notin> set (a @ 45 # b)" using al alpha_facts(5) by auto
    show "38 \<notin> set (a @ 45 # b)" using al alpha_facts(6) by auto
    show "40 \<notin> set (a @ 45 # b)" using al alpha_facts(7) by auto
    show "94 \<notin> set (a @ 45 # b)" using al alpha_facts(8) by auto
    have "45 \<notin> fst ` set SYMBOLS" by (simp add: SYMBOLS_def)
    then show "set (a @ 45 # b) \<inter> fst ` set SYMBOLS = {}" using al alpha_facts(3) by auto
  qed
  also have "\<dots> = a @ 45 # b"
  proof -
    have "py_strip U (a @ 45 # b) = a @ 45 # b"
      using assms(1,2) ns by (intro py_strip_id) (auto simp: hd_append)
    moreover have "collapseWhitespace U ((a @ 45 # b) @ []) = (a @ 45 # b) @ collapseWhitespace U []"
      by (rule cw_nospace) (rule ns)
    ultimately show ?thesis by (simp add: squeeze_alt)
  qed
  finally have sp: "speakify_math U (a @ 45 # b) = a @ 45 # b" .
  have so: "concat (map spell_out x) = x" if "\<And>c. c \<in> set x \<Longrightarrow> is_alpha c" for x
    by (rule concat_map_unchanged) (simp add: spell_out_def alpha_facts(2) that)
  have m: "spell_out 45 = cps '' minus ''" by (simp add: spell_out_def PUNCT_def)
  have l: "concat (map spell_out (a @ 45 # b)) = a @ cps '' minus '' @ b"
    using so[of a] so[of b] al m by simp
  have nsa: "\<not> is_space U c" if "c \<in> set a" for c using that al alpha_facts(1) by blast
  have nsb: "\<not> is_space U c" if "c \<in> set b" for c using that al alpha_facts(1) by blast
  have db: "dropWhile (is_space U) b = b" using assms(2) nsb by (cases b) auto
  have cb: "collapseWhitespace U b = b" using cw_nospace[of b U "[]"] nsb by simp
  have "squeeze U (a @ cps '' minus '' @ b) = a @ cps '' minus '' @ b"
  proof -
    have "py_strip U (a @ cps '' minus '' @ b) = a @ cps '' minus '' @ b"
      using assms(1,2) nsa nsb by (intro py_strip_id) (auto simp: hd_append cps_def)
    moreover have "collapseWhitespace U (a @ cps '' minus '' @ b) =
                   a @ collapseWhitespace U (cps '' minus '' @ b)"
      by (rule cw_nospace) (rule nsa)
    moreover have "collapseWhitespace U (cps '' minus '' @ b) = cps '' minus '' @ b"
      using db cb by (simp add: cps_def is_space_def)
    ultimately show ?thesis by (simp add: squeeze_alt)
  qed
  with sp l show ?thesis
    by (simp add: to_spoken_english_def literalize_one_pass)
qed

lemma guard_skips_answer:
  assumes "\<not> (0 \<le> ci \<and> ci < int (length (filter (\<lambda>t. t \<noteq> []) (map (py_strip U) (el_options q)))))"
  shows "process_question U cfg idx (q\<lparr>el_correct := Some ci\<rparr>) =
         process_question U cfg idx (q\<lparr>el_correct := None\<rparr>)"
proof -
  define options where "options = filter (\<lambda>t. t \<noteq> []) (map (py_strip U) (el_options q))"
  from assms have g: "\<not> (0 \<le> ci \<and> ci < int (length options))"
    unfolding options_def .
  show ?thesis
    unfolding process_question_def Let_def
    using g
    by (cases "0 \<le> ci")
       (simp_all add: options_def[symmetric]
          cong: sum.case_cong option.case_cong prod.case_cong if_cong)
qed

subsection \<open>The catch-all rule\<close>

lemma scan_catchall_strip: "scan U catchall_pat [] 0 p s = strip_commands s"
proof (induction s arbitrary: p rule: length_induct)
  case (1 s)
  show ?case
  proof (cases s)
    case Nil
    then show ?thesis by (simp add: rmatch_catchall_Nil)
  next
    case (Cons x xs)
    show ?thesis
    proof (cases "x = 92 \<and> starts_alpha xs")
      case True
      let ?r = "dropWhile is_alpha (tl xs)"
      have m: "rmatch U (map atom_of catchall_pat) p (x # xs) =
          Some ([[92], hd xs # takeWhile is_alpha (tl xs)], ?r)"
        using True by (simp add: rmatch_catchall del: rmatch.simps)
      have e: "scan U catchall_pat [] 0 p (x # xs) =
          expand [] (groups catchall_pat [[92], hd xs # takeWhile is_alpha (tl xs)]) @
          scan U catchall_pat [] 0 (Some (last (concat [[92], hd xs # takeWhile is_alpha (tl xs)]))) ?r"
        by (rule scan_match[OF m]) simp
      have "length ?r < length s"
        using Cons by (simp add: less_Suc_eq_le le_trans[OF length_dropWhile_le])
      with 1 have ih: "scan U catchall_pat [] 0 q ?r = strip_commands ?r" for q
        by blast
      from True have d: "dropWhile is_alpha xs = ?r"
        by (cases xs) (simp_all add: starts_alpha_def)
      from e ih d True Cons show ?thesis by simp
    next
      case False
      then have m: "rmatch U (map atom_of catchall_pat) p (x # xs) = None"
        by (simp add: rmatch_catchall del: rmatch.simps)
      have e: "scan U catchall_pat [] 0 p (x # xs) = x # scan U catchall_pat [] 0 (Some x) xs"
        by (rule scan_nomatch[OF m])
      have "length xs < length s" using Cons by simp
      with 1 have ih: "scan U catchall_pat [] 0 (Some x) xs = strip_commands xs" by blast
      from False have sc: "strip_commands (x # xs) = x # strip_commands xs" by auto
      show ?thesis by (simp only: Cons e sc ih)
    qed
  qed
qed

lemma apply_latex_pairs_strip: "apply_latex_pairs U t = strip_commands (earlier_rules U t)"
  unfolding apply_latex_pairs_last earlier_rules_def by (simp add: re_sub_def scan_catchall_strip)

lemma set_strip_commands: "set (strip_commands s) \<subseteq> set s"
proof (induction s rule: strip_commands.induct)
  case 1
  show ?case by simp
next
  case (2 x xs)
  show ?case
  proof (cases "x = 92 \<and> starts_alpha xs")
    case True
    with 2 have "set (strip_commands (dropWhile is_alpha xs)) \<subseteq> set (dropWhile is_alpha xs)"
      by simp
    moreover have "set (dropWhile is_alpha xs) \<subseteq> set xs" by (meson set_dropWhileD subsetI)
    ultimately show ?thesis using True by auto
  next
    case False
    with 2 have "set (strip_commands xs) \<subseteq> set xs" by simp
    with False show ?thesis by auto
  qed
qed

lemma cmd_free_strip: "cmd_free (strip_commands s)"
  using cmd_free_catchall[of U s] by (simp add: re_sub_def scan_catchall_strip)

subsection \<open>Command tokens and whitespace\<close>

lemma starts_alpha_append: "starts_alpha a \<Longrightarrow> starts_alpha (a @ b)"
  by (cases a) (simp_all add: starts_alpha_def)

lemma cmd_free_append: "cmd_free (a @ b) \<Longrightarrow> cmd_free a \<and> cmd_free b"
proof (induction a)
  case Nil
  then show ?case by simp
next
  case (Cons x a)
  from Cons.prems have 1: "\<not> (x = 92 \<and> starts_alpha (a @ b))" and 2: "cmd_free (a @ b)"
    by (simp_all add: cmd_free_Cons)
  from 1 starts_alpha_append have "\<not> (x = 92 \<and> starts_alpha a)" by blast
  with Cons.IH[OF 2] show ?case by (simp add: cmd_free_Cons)
qed

lemma cmd_free_dropWhile: "cmd_free s \<Longrightarrow> cmd_free (dropWhile P s)"
  using cmd_free_append[of "takeWhile P s" "dropWhile P s"] by simp

lemma rstrip_prefix: "rstrip U s @ rev (takeWhile (is_space U) (rev s)) = s"
  unfolding rstrip_def by (metis rev_append rev_rev_ident takeWhile_dropWhile_id)

lemma cmd_free_py_strip: "cmd_free s \<Longrightarrow> cmd_free (py_strip U s)"
proof -
  assume "cmd_free s"
  then have "cmd_free (dropWhile (is_space U) s)" by (rule cmd_free_dropWhile)
  then have "cmd_free (rstrip U (dropWhile (is_space U) s) @
                       rev (takeWhile (is_space U) (rev (dropWhile (is_space U) s))))"
    by (simp only: rstrip_prefix)
  then show ?thesis unfolding py_strip_alt using cmd_free_append by blast
qed

lemma cmd_free_cw:
  "cmd_free s \<Longrightarrow>
   cmd_free (collapseWhitespace U s) \<and> (starts_alpha (collapseWhitespace U s) \<longrightarrow> starts_alpha s)"
proof (induction U s rule: collapseWhitespace.induct)
  case (1 U)
  show ?case by simp
next
  case (2 U x xs)
  from "2.prems" have c: "cmd_free xs" and n: "\<not> (x = 92 \<and> starts_alpha xs)"
    by (simp_all add: cmd_free_Cons)
  show ?case
  proof (cases "is_space U x")
    case True
    have "cmd_free (dropWhile (is_space U) xs)" using c by (rule cmd_free_dropWhile)
    with "2.IH"(1)[OF True] have "cmd_free (collapseWhitespace U (dropWhile (is_space U) xs))"
      by simp
    moreover have "\<not> starts_alpha (32 # t)" for t by (simp add: starts_alpha_def is_alpha_def)
    ultimately show ?thesis using True by (simp add: cmd_free_Cons)
  next
    case False
    from "2.IH"(2)[OF False c]
    have i: "cmd_free (collapseWhitespace U xs)"
      "starts_alpha (collapseWhitespace U xs) \<longrightarrow> starts_alpha xs"
      by simp_all
    have "starts_alpha (x # t) = starts_alpha (x # xs)" for t by (simp add: starts_alpha_def)
    with i n False show ?thesis by (auto simp: cmd_free_Cons)
  qed
qed

lemma cmd_free_squeeze: "cmd_free s \<Longrightarrow> cmd_free (squeeze U s)"
  unfolding squeeze_alt using cmd_free_cw[OF cmd_free_py_strip] by blast

subsection \<open>Text whose only markup is the backslash\<close>

lemma plain_but_backslash_chars:
  assumes "plain_but_backslash t" and "set s \<subseteq> insert 32 (set t)"
  shows "96 \<notin> set s" "38 \<notin> set s" "40 \<notin> set s" "94 \<notin> set s"
    "set s \<inter> fst ` set SYMBOLS = {}" "set s \<inter> fst ` set PUNCT = {}"
proof -
  have m: "c \<notin> set MARKUP" if "c \<in> set t" "c \<noteq> 92" for c
    using assms(1) that by (simp add: plain_but_backslash_def markup_free_def)
  have k: "c \<notin> set s" if "c \<in> set MARKUP" "c \<noteq> 92" for c
  proof
    assume "c \<in> set s"
    with assms(2) have "c = 32 \<or> c \<in> set t" by auto
    then show False
    proof
      assume "c = 32"
      with that(1) space_not_markup show False by simp
    next
      assume "c \<in> set t"
      with m that show False by blast
    qed
  qed
  show "96 \<notin> set s" by (rule k) (simp_all add: MARKUP_def)
  show "38 \<notin> set s" by (rule k) (simp_all add: MARKUP_def)
  show "40 \<notin> set s" by (rule k) (simp_all add: MARKUP_def PUNCT_def)
  show "94 \<notin> set s" by (rule k) (simp_all add: MARKUP_def PUNCT_def)
  have b: "92 \<notin> fst ` set SYMBOLS" "92 \<notin> fst ` set PUNCT"
    by (simp_all add: SYMBOLS_def PUNCT_def)
  show "set s \<inter> fst ` set SYMBOLS = {}"
  proof -
    have "c \<notin> set s" if "c \<in> fst ` set SYMBOLS" for c
    proof (rule k)
      show "c \<in> set MARKUP" using that by (simp add: MARKUP_def)
      show "c \<noteq> 92" using that b by auto
    qed
    then show ?thesis by blast
  qed
  show "set s \<inter> fst ` set PUNCT = {}"
  proof -
    have "c \<notin> set s" if "c \<in> fst ` set PUNCT" for c
    proof (rule k)
      show "c \<in> set MARKUP" using that by (simp add: MARKUP_def)
      show "c \<noteq> 92" using that b by auto
    qed
    then show ?thesis by blast
  qed
qed

lemma normalize_commands_only:
  assumes "plain_but_backslash t" and "earlier_rules U t = t"
  shows "to_spoken_english U m t = squeeze U (strip_commands t)"
proof -
  let ?s = "strip_commands t"
  have st: "set ?s \<subseteq> insert 32 (set t)" using set_strip_commands[of t] by auto
  have tt: "set t \<subseteq> insert 32 (set t)" by auto
  note ct = plain_but_backslash_chars[OF assms(1) tt]
  note cs = plain_but_backslash_chars[OF assms(1) st]
  have 1: "re_sub U backtick_pat rep t = t" for rep
    by (rule re_sub_absent[of 96]) (simp_all add: ct backtick_pat_def)
  have 2: "apply_latex_pairs U t = ?s"
    by (simp add: apply_latex_pairs_strip assms(2))
  have 3: "re_sub U bigO_pat rep ?s = ?s" for rep
    by (rule re_sub_absent[of 40]) (simp_all add: cs bigO_pat_def)
  have 4: "re_sub U power_pat rep ?s = ?s" for rep
    by (rule re_sub_absent[of 94]) (simp_all add: cs power_pat_def)
  have 5: "replace_all SYMBOLS ?s = ?s"
    by (rule replace_all_absent) (rule cs)
  have sp: "speakify_math U t = squeeze U ?s"
    by (simp add: speakify_math_def 1 2 3 4 5)
  have "set (squeeze U ?s) \<subseteq> insert 32 (set t)"
    using set_squeeze[of U ?s] st by auto
  from plain_but_backslash_chars(6)[OF assms(1) this]
  have "replace_all PUNCT (squeeze U ?s) = squeeze U ?s" by (rule replace_all_absent)
  then have "literalize_symbols U (squeeze U ?s) = squeeze U ?s"
    by (simp add: literalize_symbols_def squeeze_idem)
  with sp show ?thesis by (cases m) (simp_all add: to_spoken_english_def)
qed

subsection \<open>What a match and a substitution consist of\<close>

lemma rmatch_chars:
  "rmatch U as p s = Some (gs, r) \<Longrightarrow> list_all2 (\<lambda>a g. \<forall>c \<in> set g. atom_chars U a c) as gs"
proof (induction U as p s arbitrary: gs r rule: rmatch.induct)
  case (7 U k as p x xs)
  show ?case
  proof (cases "in_cls U k x")
    case True
    show ?thesis
    proof (cases "rmatch U (Star k # as) (Some x) xs")
      case None
      with 7 True show ?thesis by (auto simp: push_eq_Some)
    next
      case (Some a)
      obtain gs' r' where a: "a = (gs', r')" by (cases a)
      from 7(1)[OF True] Some a
      have "list_all2 (\<lambda>a g. \<forall>c \<in> set g. atom_chars U a c) (Star k # as) gs'"
        by simp
      moreover from 7(4) True Some a have "gs = grow x gs'" by auto
      ultimately show ?thesis using True by (cases gs') auto
    qed
  next
    case False
    with 7 show ?thesis by (auto simp: push_eq_Some)
  qed
next
  case (9 U k as p x xs)
  show ?case
  proof (cases "in_cls U k x")
    case True
    show ?thesis
    proof (cases "rmatch U (Star k # as) (Some x) xs")
      case None
      with 9 True show ?thesis by auto
    next
      case (Some a)
      obtain gs' r' where a: "a = (gs', r')" by (cases a)
      from 9(1)[OF True] Some a
      have "list_all2 (\<lambda>a g. \<forall>c \<in> set g. atom_chars U a c) (Star k # as) gs'"
        by simp
      moreover from 9(2) True Some a have "gs = grow x gs'" by auto
      ultimately show ?thesis using True by (cases gs') auto
    qed
  next
    case False
    with 9 show ?thesis by auto
  qed
qed (auto simp: push_eq_Some split: if_splits)

lemma set_group: "set (group gs n) \<subseteq> set (concat gs)"
proof (cases "0 < n \<and> n \<le> length gs")
  case True
  then have "n - 1 < length gs" by arith
  then have "gs ! (n - 1) \<in> set gs" by (rule nth_mem)
  with True show ?thesis by (auto simp: group_def)
next
  case False
  then show ?thesis by (auto simp: group_def)
qed

lemma set_groups: "set (concat (groups pat gs)) \<subseteq> set (concat gs)"
  by (auto simp: groups_def dest: set_zip_rightD)

lemma set_expand: "set (expand rep gs) \<subseteq> tpl_chars rep \<union> set (concat gs)"
proof (induction rep gs rule: expand.induct)
  case (3 n ts gs)
  then show ?case using set_group[of gs n] by auto
qed auto

lemma set_expand_groups:
  assumes "rmatch U (map atom_of pat) p s = Some (gs, r)"
  shows "set (expand rep (groups pat gs)) \<subseteq> tpl_chars rep \<union> set s"
proof -
  have a: "set (expand rep (groups pat gs)) \<subseteq> tpl_chars rep \<union> set (concat (groups pat gs))"
    by (rule set_expand)
  have b: "set (concat (groups pat gs)) \<subseteq> set (concat gs)" by (rule set_groups)
  from rmatch_shape[OF assms] have "concat gs @ r = s" by simp
  then have "set s = set (concat gs) \<union> set r" by (metis set_append)
  then have c: "set (concat gs) \<subseteq> set s" by (metis Un_upper1)
  from a b c show ?thesis by (meson subsetD subsetI UnE UnI1 UnI2)
qed

lemma set_scan: "set (scan U pat rep k p s) \<subseteq> tpl_chars rep \<union> set s"
proof (induction s arbitrary: k p)
  case Nil
  show ?case
  proof (cases "rmatch U (map atom_of pat) p []")
    case None
    then show ?thesis by (cases "k = 0") simp_all
  next
    case (Some a)
    obtain gs r where a: "a = (gs, r)" by (cases a)
    from set_expand_groups[of U pat p "[]" gs r rep] Some a show ?thesis
      by (cases "k = 0") simp_all
  qed
next
  case (Cons x xs)
  note ih = Cons.IH
  show ?case
  proof (cases k)
    case (Suc k')
    with ih[of k' "Some x"] show ?thesis by auto
  next
    case 0
    show ?thesis
    proof (cases "rmatch U (map atom_of pat) p (x # xs)")
      case None
      with 0 ih[of 0 "Some x"] show ?thesis by auto
    next
      case (Some a)
      obtain gs r where a: "a = (gs, r)" by (cases a)
      note e = set_expand_groups[of U pat p "x # xs" gs r rep, OF Some[unfolded a]]
      show ?thesis
      proof (cases "length (concat gs)")
        case z: 0
        have "scan U pat rep k p (x # xs) =
              expand rep (groups pat gs) @ x # scan U pat rep 0 (Some x) xs"
          by (simp only: 0 scan.simps Some a option.case prod.case z nat.case)
        with e ih[of 0 "Some x"] show ?thesis by auto
      next
        case (Suc n)
        have "scan U pat rep k p (x # xs) =
              expand rep (groups pat gs) @ scan U pat rep n (Some x) xs"
          by (simp only: 0 scan.simps Some a option.case prod.case Suc nat.case)
        with e ih[of n "Some x"] show ?thesis by auto
      qed
    qed
  qed
qed

lemma re_sub_keeps_out:
  "c \<notin> set s \<Longrightarrow> c \<notin> tpl_chars rep \<Longrightarrow> c \<notin> set (re_sub U pat rep s)"
  using set_scan[of U pat rep 0 None s] by (auto simp: re_sub_def)

lemma foldl_re_sub_keeps_out:
  "c \<notin> set t \<Longrightarrow> list_all (\<lambda>(pat, rep). c \<notin> tpl_chars rep) ps \<Longrightarrow>
   c \<notin> set (foldl (\<lambda>t (pat, rep). re_sub U pat rep t) t ps)"
proof (induction ps arbitrary: t)
  case Nil
  then show ?case by simp
next
  case (Cons a ps)
  obtain pat rep where a: "a = (pat, rep)" by (cases a)
  from Cons.prems(2) a have "c \<notin> tpl_chars rep" by simp
  with Cons.prems(1) have "c \<notin> set (re_sub U pat rep t)" by (rule re_sub_keeps_out)
  from Cons.IH[OF this] Cons.prems(2) a show ?case by simp
qed

lemma paren_kept_out:
  assumes "40 \<notin> set s"
  shows "40 \<notin> set (apply_latex_pairs U (re_sub U backtick_pat [Ref 1] s))"
proof -
  have "40 \<notin> set (re_sub U backtick_pat [Ref 1] s)"
    using assms by (rule re_sub_keeps_out) simp
  moreover have "list_all (\<lambda>(pat, rep). 40 \<notin> tpl_chars rep) LATEX_PAIRS"
    by (simp add: LATEX_PAIRS_def cps_def)
  ultimately show ?thesis unfolding apply_latex_pairs_def by (rule foldl_re_sub_keeps_out)
qed

subsection \<open>Later stages form no command token\<close>

lemma no_backslash_cmd_free: "92 \<notin> set s \<Longrightarrow> cmd_free s"
  by (induction s) (auto simp: cmd_free_Cons)

lemma cmd_free_join:
  assumes "92 \<notin> set a" and "cmd_free b"
  shows "cmd_free (a @ b)"
  using assms(1) by (induction a) (auto simp: cmd_free_Cons assms(2))

lemma starts_alpha_Cons: "starts_alpha (x # t) = is_alpha x"
  by (simp add: starts_alpha_def)

lemma word_not_backslash: "is_word U c \<Longrightarrow> c \<noteq> 92"
  by (auto simp: is_word_def is_alpha_def)

lemma digit_not_backslash: "is_digit U c \<Longrightarrow> c \<noteq> 92"
  by (auto simp: is_digit_def)

lemma rmatch_power:
  assumes "rmatch U (map atom_of power_pat) p (x # xs) = Some (gs, r)"
  shows "\<exists>g5. expand [Ref 1, Lit (cps '' to the power of ''), Ref 2] (groups power_pat gs)
              = x # cps '' to the power of '' @ g5 \<and> 92 \<notin> set g5 \<and> x \<noteq> 92 \<and>
              concat gs \<noteq> []"
proof -
  let ?rest = "[Star CSpace, Chr 94, Star CSpace, Plus CDigit]"
  from assms obtain gs' where w: "is_word U x" and g: "gs = [x] # gs'"
    and m: "rmatch U ?rest (Some x) xs = Some (gs', r)"
    by (auto simp: power_pat_def push_eq_Some split: if_splits simp del: rmatch.simps(6,7,8,9))
  from rmatch_chars[OF m] obtain g2 g3 g4 g5 where gs': "gs' = [g2, g3, g4, g5]"
    and d: "\<forall>c \<in> set g5. is_digit U c"
    by (auto simp: list_all2_Cons1)
  from d digit_not_backslash have "92 \<notin> set g5" by blast
  moreover have "expand [Ref 1, Lit (cps '' to the power of ''), Ref 2] (groups power_pat gs)
              = x # cps '' to the power of '' @ g5"
    by (simp add: g gs' groups_def power_pat_def group_def)
  moreover have "concat gs \<noteq> []" by (simp add: g)
  ultimately show ?thesis using w word_not_backslash by blast
qed

lemma scan_power:
  "cmd_free s \<Longrightarrow>
   cmd_free (scan U power_pat [Ref 1, Lit (cps '' to the power of ''), Ref 2] 0 p s) \<and>
   (starts_alpha (scan U power_pat [Ref 1, Lit (cps '' to the power of ''), Ref 2] 0 p s)
      \<longrightarrow> starts_alpha s)"
proof (induction s arbitrary: p rule: length_induct)
  case (1 s)
  let ?rep = "[Ref 1, Lit (cps '' to the power of ''), Ref 2]"
  show ?case
  proof (cases s)
    case Nil
    have "rmatch U (map atom_of power_pat) p [] = None" by (simp add: power_pat_def)
    with Nil show ?thesis by (simp add: starts_alpha_def)
  next
    case (Cons x xs)
    show ?thesis
    proof (cases "rmatch U (map atom_of power_pat) p (x # xs)")
      case None
      have e: "scan U power_pat ?rep 0 p (x # xs) = x # scan U power_pat ?rep 0 (Some x) xs"
        by (rule scan_nomatch[OF None])
      from "1.prems" Cons have c: "cmd_free xs" and n: "\<not> (x = 92 \<and> starts_alpha xs)"
        by (simp_all add: cmd_free_Cons)
      have "length xs < length s" using Cons by simp
      with 1 c have ih: "cmd_free (scan U power_pat ?rep 0 (Some x) xs) \<and>
          (starts_alpha (scan U power_pat ?rep 0 (Some x) xs) \<longrightarrow> starts_alpha xs)"
        by blast
      with n show ?thesis unfolding Cons e by (auto simp: cmd_free_Cons starts_alpha_Cons)
    next
      case (Some a)
      obtain gs r where a: "a = (gs, r)" by (cases a)
      note m = Some[unfolded a]
      from rmatch_power[OF m] obtain g5 where
        x: "expand ?rep (groups power_pat gs) = x # cps '' to the power of '' @ g5"
        and g5: "92 \<notin> set g5" and x92: "x \<noteq> 92" and ne: "concat gs \<noteq> []"
        by blast
      from rmatch_shape[OF m] have sh: "concat gs @ r = x # xs" by simp
      have e: "scan U power_pat ?rep 0 p (x # xs) =
               expand ?rep (groups power_pat gs) @
               scan U power_pat ?rep 0 (Some (last (concat gs))) r"
        by (rule scan_match[OF m ne])
      from "1.prems" Cons sh have "cmd_free (concat gs @ r)" by simp
      then have cr: "cmd_free r" using cmd_free_append by blast
      have "length r < length s" using rmatch_shorter[OF m ne] Cons by simp
      with 1 cr have ih: "cmd_free (scan U power_pat ?rep 0 q r)" for q by blast
      have "92 \<notin> set (x # cps '' to the power of '' @ g5)"
        using g5 x92 by (simp add: cps_def)
      then have "cmd_free ((x # cps '' to the power of '' @ g5) @
                   scan U power_pat ?rep 0 (Some (last (concat gs))) r)"
        using ih by (rule cmd_free_join)
      then show ?thesis unfolding Cons e x by (simp add: starts_alpha_Cons)
    qed
  qed
qed

lemma cmd_free_replace_char:
  assumes "k \<noteq> 92" "92 \<notin> set v" "hd v = 32" "v \<noteq> []"
  shows "cmd_free s \<Longrightarrow>
         cmd_free (replace_char k v s) \<and> (starts_alpha (replace_char k v s) \<longrightarrow> starts_alpha s)"
proof (induction s)
  case Nil
  show ?case by (simp add: replace_char_def)
next
  case (Cons x xs)
  have r: "replace_char k v (x # xs) = (if x = k then v else [x]) @ replace_char k v xs"
    by (simp add: replace_char_def)
  from Cons.prems have c: "cmd_free xs" and n: "\<not> (x = 92 \<and> starts_alpha xs)"
    by (simp_all add: cmd_free_Cons)
  note ih = Cons.IH[OF c]
  show ?case
  proof (cases "x = k")
    case True
    have "cmd_free (v @ replace_char k v xs)" using assms(2) ih by (intro cmd_free_join) simp_all
    moreover have "\<not> starts_alpha (v @ t)" for t
      using assms(3,4) by (cases v) (simp_all add: starts_alpha_def is_alpha_def)
    ultimately show ?thesis using True r by simp
  next
    case False
    with r ih n show ?thesis by (auto simp: cmd_free_Cons starts_alpha_Cons)
  qed
qed

lemma cmd_free_replace_all:
  assumes "list_all (\<lambda>(k, v). k \<noteq> 92 \<and> 92 \<notin> set v \<and> hd v = 32 \<and> v \<noteq> []) tab"
  shows "cmd_free s \<Longrightarrow> cmd_free (replace_all tab s)"
  using assms
proof (induction tab arbitrary: s)
  case Nil
  then show ?case by (simp add: replace_all_def)
next
  case (Cons a tab)
  obtain k v where a: "a = (k, v)" by (cases a)
  from Cons.prems(2) a have kv: "k \<noteq> 92" "92 \<notin> set v" "hd v = 32" "v \<noteq> []" by auto
  from cmd_free_replace_char[OF kv Cons.prems(1)] have "cmd_free (replace_char k v s)" by simp
  from Cons.IH[OF this] Cons.prems(2) show ?case unfolding a replace_all_Cons by simp
qed

lemma tables_spaced:
  "list_all (\<lambda>(k, v). k \<noteq> 92 \<and> 92 \<notin> set v \<and> hd v = 32 \<and> v \<noteq> []) SYMBOLS"
  "list_all (\<lambda>(k, v). k \<noteq> 92 \<and> 92 \<notin> set v \<and> hd v = 32 \<and> v \<noteq> []) PUNCT"
  by (simp_all add: SYMBOLS_def PUNCT_def cps_def)

lemma cmd_free_normalize:
  assumes "40 \<notin> set s"
  shows "cmd_free (to_spoken_english U m s)"
proof -
  let ?t2 = "apply_latex_pairs U (re_sub U backtick_pat [Ref 1] s)"
  let ?t4 = "re_sub U power_pat [Ref 1, Lit (cps '' to the power of ''), Ref 2] ?t2"
  have 2: "cmd_free ?t2" by (rule cmd_free_latex_pairs)
  have 3: "re_sub U bigO_pat rep ?t2 = ?t2" for rep
  proof (rule re_sub_absent[of 40])
    show "Chr 40 \<in> set (map atom_of bigO_pat)" by (simp add: bigO_pat_def)
    show "40 \<notin> set ?t2" by (rule paren_kept_out[OF assms])
  qed
  have 4: "cmd_free ?t4" using scan_power[OF 2] by (simp add: re_sub_def)
  have 5: "cmd_free (replace_all SYMBOLS ?t4)"
    by (rule cmd_free_replace_all[OF tables_spaced(1) 4])
  have sp: "speakify_math U s = squeeze U (replace_all SYMBOLS ?t4)"
    by (simp only: speakify_math_def Let_def 3)
  have n: "cmd_free (speakify_math U s)" unfolding sp by (rule cmd_free_squeeze[OF 5])
  have "cmd_free (literalize_symbols U (speakify_math U s))"
    unfolding literalize_symbols_def
    by (rule cmd_free_squeeze[OF cmd_free_replace_all[OF tables_spaced(2) n]])
  with n show ?thesis by (cases m) (simp_all add: to_spoken_english_def)
qed

section \<open>The claims\<close>

text \<open>
  C1. On a string with no markup, in either mode, \<open>to_spoken_english\<close> returns the string
  with its ends trimmed and every run of whitespace collapsed to one space.
\<close>

theorem normalize_identity_modulo_whitespace:
  "markup_free s \<Longrightarrow> to_spoken_english U m s = collapseWhitespace U (py_strip U s)"
  by (simp add: normalize_markup_free squeeze_alt)

theorem normalize_identity_modulo_whitespace_witness:
  "markup_free (cps ''  a   b '') \<and>
   to_spoken_english ascii_db Literal (cps ''  a   b '') = cps ''a b''"
proof -
  have h: "markup_free (cps ''  a   b '')" by code_simp
  have "collapseWhitespace ascii_db (py_strip ascii_db (cps ''  a   b ''))
        = cps ''a b''"
    by code_simp
  with normalize_identity_modulo_whitespace[OF h, of ascii_db Literal] h show ?thesis by simp
qed

text \<open>
  C8. On a string with no markup, in either mode, normalising twice gives what normalising
  once gives.
\<close>

theorem normalize_idempotent_on_clean:
  "markup_free s \<Longrightarrow>
   to_spoken_english U m (to_spoken_english U m s) = to_spoken_english U m s"
  using normalize_markup_free[of s U m] normalize_markup_free[OF markup_free_squeeze, of s U m U]
  by (simp add: squeeze_idem)

theorem normalize_idempotent_on_clean_witness:
  "markup_free (cps ''  a   b '') \<and>
   to_spoken_english ascii_db Natural (cps ''  a   b '') = cps ''a b'' \<and>
   to_spoken_english ascii_db Natural (cps ''a b'') = cps ''a b''"
proof -
  have h: "markup_free (cps ''  a   b '')" by code_simp
  have e: "to_spoken_english ascii_db Natural (cps ''  a   b '') = cps ''a b''"
    by code_simp
  from normalize_idempotent_on_clean[OF h, of ascii_db Natural] e h show ?thesis by simp
qed

text \<open>
  C9. When some option at a zero-based position of 6 or more does not begin with a letter
  and a colon, \<open>build_question_parts\<close> indexes the six letters \<open>A\<close> to \<open>F\<close> out of
  bounds: the call ends in \<open>IndexError\<close> and returns no segments.
\<close>

theorem seventh_unlabelled_option_raises:
  "j < length options \<Longrightarrow> 6 \<le> j \<Longrightarrow> split_label U (options ! j) = None \<Longrightarrow>
   build_question_parts U m q_idx topic q_text options = Inl IndexError"
  by (auto simp: build_question_parts_alt labels_suffice_nth letters_def)

theorem seventh_unlabelled_option_raises_witness:
  "6 < length (replicate 7 (cps ''y'')) \<and> split_label ascii_db (replicate 7 (cps ''y'') ! 6) = None \<and>
   build_question_parts ascii_db Natural 1 (cps ''Graphs'') (cps ''What?'') (replicate 7 (cps ''y''))
     = Inl IndexError"
proof -
  have a: "6 < length (replicate 7 (cps ''y''))" by simp
  have b: "split_label ascii_db (replicate 7 (cps ''y'') ! 6) = None" by code_simp
  from seventh_unlabelled_option_raises[OF a _ b, of Natural 1 "cps ''Graphs''" "cps ''What?''"] a b
  show ?thesis by simp
qed

text \<open>
  C4. The label of each option of the options segment: when every option without a
  letter of its own stands at one of the first six positions, the segment is the options
  in order, each spoken as \<open>Option\<close>, its expected label, a colon and its normalised
  body, joined by spaces. The expected label of an option that begins with a letter and a
  colon is that letter upper-cased (the pattern also lets whitespace stand before the
  letter and before the colon); the expected label of any other option is the letter of
  \<open>A\<close> to \<open>F\<close> at its position. For the options \<open>A: x\<close>, \<open>y\<close>, \<open>z\<close> the labels are
  \<open>A\<close>, \<open>B\<close>, \<open>C\<close>.
\<close>

theorem option_labels:
  "(labels_suffice U 0 options \<longrightarrow>
      map_sum id snd (build_question_parts U m q_idx topic q_text options) =
        Inr (join (cps '' '') (map (expected_option U m) (enumerate 0 options)))) \<and>
   (is_alpha l \<longrightarrow> expected_label U j (l # 58 # rest) = [upper l]) \<and>
   (split_label U opt = None \<longrightarrow> expected_label U j opt = letters ! j) \<and>
   map_sum id snd (build_question_parts U Natural q_idx topic q_text [cps ''A: x'', cps ''y'', cps ''z''])
     = Inr (cps ''Option A: x. Option B: y. Option C: z.'')"
proof (intro conjI impI)
  assume "labels_suffice U 0 options"
  then show "map_sum id snd (build_question_parts U m q_idx topic q_text options) =
        Inr (join (cps '' '') (map (expected_option U m) (enumerate 0 options)))"
    by (simp add: build_question_parts_alt)
next
  assume "is_alpha l"
  then show "expected_label U j (l # 58 # rest) = [upper l]"
    by (simp add: expected_label_def split_label_strict)
next
  assume "split_label U opt = None"
  then show "expected_label U j opt = letters ! j"
    by (simp add: expected_label_def)
next
  have "spoken_opts U Natural 0 [cps ''A: x'', cps ''y'', cps ''z'']
        = Inr [cps ''Option A: x.'', cps ''Option B: y.'', cps ''Option C: z.'']"
    by code_simp
  then show "map_sum id snd (build_question_parts U Natural q_idx topic q_text [cps ''A: x'', cps ''y'', cps ''z''])
     = Inr (cps ''Option A: x. Option B: y. Option C: z.'')"
    by (simp add: build_question_parts_def cps_def)
qed

theorem option_labels_witness:
  "labels_suffice ascii_db 0 [cps ''b : x'', cps ''y''] \<and>
   map_sum id snd (build_question_parts ascii_db Natural 1 [] (cps ''q'') [cps ''b : x'', cps ''y''])
     = Inr (cps ''Option B: x. Option B: y.'') \<and>
   is_alpha 99 \<and> expected_label ascii_db 1 (cps ''c:x'') = cps ''C'' \<and>
   split_label ascii_db (cps ''y'') = None \<and> expected_label ascii_db 1 (cps ''y'') = cps ''B''"
proof -
  have a: "labels_suffice ascii_db 0 [cps ''b : x'', cps ''y'']" by code_simp
  have b: "is_alpha 99" by code_simp
  have c: "split_label ascii_db (cps ''y'') = None" by code_simp
  have d: "join (cps '' '') (map (expected_option ascii_db Natural) (enumerate 0 [cps ''b : x'', cps ''y'']))
           = cps ''Option B: x. Option B: y.''" by code_simp
  have e: "cps ''c:x'' = 99 # 58 # cps ''x''" "[upper 99] = cps ''C''" "letters ! 1 = cps ''B''"
    by code_simp+
  from option_labels[of ascii_db "[cps ''b : x'', cps ''y'']" Natural 1 "[]" "cps ''q''" 99 1 "cps ''x''" "cps ''y''"]
    a b c d e show ?thesis by simp
qed

text \<open>
  C5. With \<open>EXPLANATION_SEPARATE_FILE\<close> false, answer and explanation both enabled, a
  correct index that is a position of the kept options and an explanation with text, the
  loop body synthesizes the question segment, the options segment and then exactly one
  combined text: question segment, options segment, answer and explanation in this order,
  joined by single spaces. Neither the answer nor the explanation is synthesized on its
  own. (The kept options are the stripped non-empty option texts; they are assumed to
  get labels, see C9.)
\<close>

theorem combined_unit:
  assumes "\<not> EXPLANATION_SEPARATE_FILE cfg"
    and "INCLUDE_CORRECT_ANSWER cfg" and "INCLUDE_EXPLANATION cfg"
    and "el_text q = Some txt"
    and "options = filter (\<lambda>t. t \<noteq> []) (map (py_strip U) (el_options q))"
    and "labels_suffice U 0 options"
    and "el_correct q = Some ci" and "0 \<le> ci" and "ci < int (length options)"
    and "el_explanation q = Some e" and "e \<noteq> []"
  shows "\<exists>part_q part_opts spoken_ans.
           build_question_parts U (READING_MODE cfg) idx (el_topic q) (py_strip U txt) options
             = Inr (part_q, part_opts) \<and>
           build_answer_text U (READING_MODE cfg) ci options = Inr spoken_ans \<and>
           process_question U cfg idx q =
             Inr [(Question, part_q), (Options, part_opts),
                  (Combined,
                   part_q @ cps '' '' @ part_opts @ cps '' '' @ spoken_ans @ cps '' '' @
                   build_explanation_text U (READING_MODE cfg) (py_strip U e))]"
proof -
  define m where "m = READING_MODE cfg"
  define part_q where "part_q = INTRO_PROMPT @ cps '' '' @ to_spoken_english U m (py_strip U txt) @ cps ''.''"
  define part_opts where "part_opts = join (cps '' '') (map (expected_option U m) (enumerate 0 options))"
  let ?expl = "build_explanation_text U m (py_strip U e)"
  have bq: "build_question_parts U m idx (el_topic q) (py_strip U txt) options = Inr (part_q, part_opts)"
    using assms(6) by (simp add: build_question_parts_alt part_q_def part_opts_def)
  obtain spoken_ans where ba: "build_answer_text U m ci options = Inr spoken_ans"
    and an: "spoken_ans \<noteq> []"
    using build_answer_text_in_range[OF assms(8,9)] by blast
  have "options \<noteq> []" using assms(8,9) by auto
  then have on: "part_opts \<noteq> []"
    unfolding part_opts_def by (rule options_segment_nonempty)
  have qn: "part_q \<noteq> []" by (simp add: part_q_def INTRO_PROMPT_def cps_def)
  have en: "?expl \<noteq> []" by (simp add: build_explanation_text_def cps_def)
  have "process_question U cfg idx q =
          Inr [(Question, part_q), (Options, part_opts),
               (Combined, part_q @ cps '' '' @ part_opts @ cps '' '' @ spoken_ans @ cps '' '' @ ?expl)]"
    using assms(1-4,7-11) bq ba an on qn en
    unfolding process_question_def assms(5)[symmetric] m_def[symmetric]
    by (simp add: Let_def)
  with bq ba show ?thesis unfolding m_def by blast
qed

theorem combined_unit_witness:
  "process_question ascii_db
     \<lparr>READING_MODE = Natural, INCLUDE_CORRECT_ANSWER = True, INCLUDE_EXPLANATION = True,
      EXPLANATION_SEPARATE_FILE = False\<rparr> 1
     \<lparr>el_topic = cps ''Graphs'', el_text = Some (cps '' What is 1+1? ''),
      el_options = [cps ''1'', cps '' '', cps ''B: 2''], el_correct = Some 1,
      el_explanation = Some (cps ''Because.'')\<rparr> =
   Inr [(Question, cps ''Not so fast, I have a question for you. What is 1+1?.''),
        (Options, cps ''Option A: 1. Option B: 2.''),
        (Combined, cps ''Not so fast, I have a question for you. What is 1+1?. Option A: 1. Option B: 2. The correct answer is option B: 2. Explanation: Because.'')]"
proof -
  let ?cfg = "\<lparr>READING_MODE = Natural, INCLUDE_CORRECT_ANSWER = True, INCLUDE_EXPLANATION = True,
      EXPLANATION_SEPARATE_FILE = False\<rparr>"
  let ?q = "\<lparr>el_topic = cps ''Graphs'', el_text = Some (cps '' What is 1+1? ''),
      el_options = [cps ''1'', cps '' '', cps ''B: 2''], el_correct = Some 1,
      el_explanation = Some (cps ''Because.'')\<rparr>"
  have o: "[cps ''1'', cps ''B: 2''] = filter (\<lambda>t. t \<noteq> []) (map (py_strip ascii_db) (el_options ?q))"
    by code_simp
  have l: "labels_suffice ascii_db 0 [cps ''1'', cps ''B: 2'']" by code_simp
  have e: "cps ''Because.'' \<noteq> []" by (simp add: cps_def)
  have bq: "build_question_parts ascii_db Natural 1 (cps ''Graphs'') (py_strip ascii_db (cps '' What is 1+1? ''))
              [cps ''1'', cps ''B: 2'']
            = Inr (cps ''Not so fast, I have a question for you. What is 1+1?.'', cps ''Option A: 1. Option B: 2.'')"
    by code_simp
  have ba: "build_answer_text ascii_db Natural 1 [cps ''1'', cps ''B: 2'']
            = Inr (cps ''The correct answer is option B: 2.'')"
    by code_simp
  have be: "build_explanation_text ascii_db Natural (py_strip ascii_db (cps ''Because.''))
            = cps ''Explanation: Because.''"
    by code_simp
  from combined_unit[of ?cfg ?q "cps '' What is 1+1? ''" "[cps ''1'', cps ''B: 2'']" ascii_db 1
         "cps ''Because.''" 1, OF _ _ _ _ o l _ _ _ _ e]
  obtain pq po sa where
    1: "build_question_parts ascii_db Natural 1 (cps ''Graphs'') (py_strip ascii_db (cps '' What is 1+1? ''))
              [cps ''1'', cps ''B: 2''] = Inr (pq, po)" and
    2: "build_answer_text ascii_db Natural 1 [cps ''1'', cps ''B: 2''] = Inr sa" and
    3: "process_question ascii_db ?cfg 1 ?q =
          Inr [(Question, pq), (Options, po),
               (Combined, pq @ cps '' '' @ po @ cps '' '' @ sa @ cps '' '' @
                  build_explanation_text ascii_db Natural (py_strip ascii_db (cps ''Because.'')))]"
    by auto
  from 1 2 have "pq = cps ''Not so fast, I have a question for you. What is 1+1?.''"
    "po = cps ''Option A: 1. Option B: 2.''" "sa = cps ''The correct answer is option B: 2.''"
    unfolding bq ba by simp_all
  then show ?thesis unfolding 3 be by (simp add: cps_def)
qed

text \<open>
  C7. The framing text of \<open>build_question_parts\<close> brings neither marker: the two
  segments do not depend on the topic or on the question index, the question segment
  contains \<open>Topic\<close> (or \<open>Question \<close> and a digit) exactly when the normalised question
  text does, and the options segment exactly when the normalised body of some option
  does.
\<close>

theorem framing_adds_no_marker:
  assumes "build_question_parts U m q_idx topic q_text options = Inr (pq, po)"
  shows "build_question_parts U m q_idx' topic' q_text options = Inr (pq, po) \<and>
         (contains (cps ''Topic'') pq \<longleftrightarrow> contains (cps ''Topic'') (to_spoken_english U m q_text)) \<and>
         (contains (cps ''Topic'') po \<longleftrightarrow>
            (\<exists>opt \<in> set options. contains (cps ''Topic'') (to_spoken_english U m (expected_body U opt)))) \<and>
         (question_marker pq \<longleftrightarrow> question_marker (to_spoken_english U m q_text)) \<and>
         (question_marker po \<longleftrightarrow>
            (\<exists>opt \<in> set options. question_marker (to_spoken_english U m (expected_body U opt))))"
proof -
  from assms have ls: "labels_suffice U 0 options"
    and pq: "pq = INTRO_PROMPT @ cps '' '' @ to_spoken_english U m q_text @ cps ''.''"
    and po: "po = join (cps '' '') (map (expected_option U m) (enumerate 0 options))"
    by (simp_all add: build_question_parts_alt split: if_splits)
  have a: "build_question_parts U m q_idx' topic' q_text options = Inr (pq, po)"
    using ls pq po by (simp add: build_question_parts_alt)
  have b: "contains (cps ''Topic'') pq \<longleftrightarrow> contains (cps ''Topic'') (to_spoken_english U m q_text)"
    unfolding pq by (rule contains_question_segment[OF Topic_needle(1,2,3,5)])
  have c: "contains (cps ''Topic'') po \<longleftrightarrow>
            (\<exists>opt \<in> set options. contains (cps ''Topic'') (to_spoken_english U m (expected_body U opt)))"
    unfolding po by (rule contains_options_segment[OF Topic_needle(1-4) Topic_label ls])
  have d: "contains (cps ''Question '' @ [d]) pq \<longleftrightarrow>
           contains (cps ''Question '' @ [d]) (to_spoken_english U m q_text)"
    if "d \<in> {48 ..< 58}" for d
  proof -
    from that have n: "d \<noteq> 46" "d \<noteq> 58" by auto
    show ?thesis unfolding pq by (rule contains_question_segment[OF Question_needle(1,2,3,5)[OF n]])
  qed
  have e: "contains (cps ''Question '' @ [d]) po \<longleftrightarrow>
            (\<exists>opt \<in> set options.
               contains (cps ''Question '' @ [d]) (to_spoken_english U m (expected_body U opt)))"
    if "d \<in> {48 ..< 58}" for d
  proof -
    from that have n: "d \<noteq> 46" "d \<noteq> 58" by auto
    show ?thesis
      unfolding po by (rule contains_options_segment[OF Question_needle(1-4)[OF n] Question_label ls])
  qed
  have f: "question_marker pq \<longleftrightarrow> question_marker (to_spoken_english U m q_text)"
    unfolding question_marker_alt using d by blast
  have g: "question_marker po \<longleftrightarrow>
            (\<exists>opt \<in> set options. question_marker (to_spoken_english U m (expected_body U opt)))"
    unfolding question_marker_alt using e by blast
  from a b c f g show ?thesis by blast
qed

theorem framing_adds_no_marker_witness:
  "build_question_parts ascii_db Natural 1 (cps ''Graphs'') (cps ''What?'') [cps ''A: x'', cps ''y'']
     = Inr (cps ''Not so fast, I have a question for you. What?.'', cps ''Option A: x. Option B: y.'') \<and>
   build_question_parts ascii_db Natural 2 (cps ''Topic'') (cps ''What?'') [cps ''A: x'', cps ''y'']
     = Inr (cps ''Not so fast, I have a question for you. What?.'', cps ''Option A: x. Option B: y.'') \<and>
   \<not> contains (cps ''Topic'') (cps ''Not so fast, I have a question for you. What?.'') \<and>
   \<not> contains (cps ''Topic'') (cps ''Option A: x. Option B: y.'') \<and>
   \<not> question_marker (cps ''Not so fast, I have a question for you. What?.'') \<and>
   \<not> question_marker (cps ''Option A: x. Option B: y.'')"
proof -
  have h: "build_question_parts ascii_db Natural 1 (cps ''Graphs'') (cps ''What?'') [cps ''A: x'', cps ''y'']
     = Inr (cps ''Not so fast, I have a question for you. What?.'', cps ''Option A: x. Option B: y.'')"
    by code_simp
  have q: "\<not> contains (cps ''Topic'') (to_spoken_english ascii_db Natural (cps ''What?''))"
    "\<not> question_marker (to_spoken_english ascii_db Natural (cps ''What?''))"
    by code_simp+
  have o: "\<not> (\<exists>opt \<in> set [cps ''A: x'', cps ''y''].
             contains (cps ''Topic'') (to_spoken_english ascii_db Natural (expected_body ascii_db opt)))"
    "\<not> (\<exists>opt \<in> set [cps ''A: x'', cps ''y''].
             question_marker (to_spoken_english ascii_db Natural (expected_body ascii_db opt)))"
    by code_simp+
  from framing_adds_no_marker[OF h, of 2 "cps ''Topic''"] h q o show ?thesis by blast
qed

theorem framing_adds_no_marker_counterexample:
  "build_question_parts ascii_db Natural 3 (cps ''Graphs'') (cps ''Topic 1'') [cps ''Question 2'']
     = Inr (cps ''Not so fast, I have a question for you. Topic 1.'', cps ''Option A: Question 2.'') \<and>
   contains (cps ''Topic'') (cps ''Not so fast, I have a question for you. Topic 1.'') \<and>
   question_marker (cps ''Option A: Question 2.'')"
  by code_simp

text \<open>
  C2. In literal mode every normalised fragment that stands in a segment (the question
  text, the body of each option, the body of the answer, the explanation) and every
  option label is free of the characters of the punctuation table. A segment is these
  fragments inside the fixed framing text: the intro prompt, \<open>Option\<close>, a label and a
  colon, \<open>The correct answer is option\<close>, a label and a colon, \<open>Explanation:\<close>, and the
  closing full stop.
\<close>

theorem literal_fragments_punctuation_free:
  "(build_question_parts U Literal q_idx topic q_text options = Inr (pq, po) \<longrightarrow>
      (\<exists>f. pq = INTRO_PROMPT @ cps '' '' @ f @ cps ''.'' \<and> no_punct f) \<and>
      (\<exists>lfs. length lfs = length options \<and>
             po = join (cps '' '')
                    (map (\<lambda>(l, f). cps ''Option '' @ l @ cps '': '' @ f @ cps ''.'') lfs) \<and>
             list_all (\<lambda>(l, f). no_punct l \<and> no_punct f) lfs)) \<and>
   (build_answer_text U Literal correct_idx options = Inr a \<longrightarrow>
      (\<exists>l f. a = cps ''The correct answer is option '' @ l @ cps '': '' @ f @ cps ''.'' \<and>
             no_punct l \<and> no_punct f)) \<and>
   (\<exists>f. build_explanation_text U Literal expl = cps ''Explanation: '' @ f \<and> no_punct f)"
proof (intro conjI impI)
  assume h: "build_question_parts U Literal q_idx topic q_text options = Inr (pq, po)"
  then have ls: "labels_suffice U 0 options"
    and pq: "pq = INTRO_PROMPT @ cps '' '' @ to_spoken_english U Literal q_text @ cps ''.''"
    and po: "po = join (cps '' '') (map (expected_option U Literal) (enumerate 0 options))"
    by (simp_all add: build_question_parts_alt split: if_splits)
  from pq no_punct_literal[of U q_text]
  show "\<exists>f. pq = INTRO_PROMPT @ cps '' '' @ f @ cps ''.'' \<and> no_punct f" by blast
  let ?lfs = "map (\<lambda>jo. (expected_label U (fst jo) (snd jo),
                         to_spoken_english U Literal (expected_body U (snd jo))))
                (enumerate 0 options)"
  have 1: "length ?lfs = length options" by simp
  have 2: "po = join (cps '' '')
                  (map (\<lambda>(l, f). cps ''Option '' @ l @ cps '': '' @ f @ cps ''.'') ?lfs)"
  proof -
    have "expected_option U Literal =
            (\<lambda>jo. cps ''Option '' @ expected_label U (fst jo) (snd jo) @ cps '': '' @
                   to_spoken_english U Literal (expected_body U (snd jo)) @ cps ''.'')"
      by (rule ext) (simp add: expected_option_def)
    then show ?thesis unfolding po by (simp add: comp_def)
  qed
  have 3: "list_all (\<lambda>(l, f). no_punct l \<and> no_punct f) ?lfs"
    unfolding list_all_iff
  proof
    fix x
    assume "x \<in> set ?lfs"
    then obtain jo where jo: "jo \<in> set (enumerate 0 options)"
      and x: "x = (expected_label U (fst jo) (snd jo),
                   to_spoken_english U Literal (expected_body U (snd jo)))"
      by auto
    from jo ls have "split_label U (snd jo) = None \<longrightarrow> fst jo < length letters"
      by (auto simp: labels_suffice_def list_all_iff)
    then have "no_punct (expected_label U (fst jo) (snd jo))" by (rule no_punct_expected_label)
    with x no_punct_literal show "case x of (l, f) \<Rightarrow> no_punct l \<and> no_punct f" by simp
  qed
  from 1 2 3
  show "\<exists>lfs. length lfs = length options \<and>
             po = join (cps '' '')
                    (map (\<lambda>(l, f). cps ''Option '' @ l @ cps '': '' @ f @ cps ''.'') lfs) \<and>
             list_all (\<lambda>(l, f). no_punct l \<and> no_punct f) lfs"
    by blast
next
  assume h: "build_answer_text U Literal correct_idx options = Inr a"
  let ?l = "if 0 \<le> correct_idx \<and> correct_idx < int (length letters)
            then letters ! nat correct_idx else cps ''A''"
  have l: "no_punct ?l"
  proof (cases "0 \<le> correct_idx \<and> correct_idx < int (length letters)")
    case True
    then have "nat correct_idx < length letters" by linarith
    then show ?thesis using True no_punct_letters by simp
  next
    case False
    have "no_punct (cps ''A'')" by code_simp
    with False show ?thesis by auto
  qed
  from h obtain raw where
    "a = cps ''The correct answer is option '' @ ?l @ cps '': '' @
         to_spoken_english U Literal (answer_body U raw) @ cps ''.''"
    by (auto simp: build_answer_text_def Let_def split: sum.splits)
  with l no_punct_literal
  show "\<exists>l f. a = cps ''The correct answer is option '' @ l @ cps '': '' @ f @ cps ''.'' \<and>
             no_punct l \<and> no_punct f"
    by blast
next
  show "\<exists>f. build_explanation_text U Literal expl = cps ''Explanation: '' @ f \<and> no_punct f"
    using no_punct_literal by (simp add: build_explanation_text_def)
qed

theorem literal_fragments_punctuation_free_witness:
  "build_question_parts ascii_db Literal 1 [] (cps ''a-b'') [cps ''c: d?'']
     = Inr (cps ''Not so fast, I have a question for you. a minus b.'',
            cps ''Option C: d question mark.'') \<and>
   build_answer_text ascii_db Literal 0 [cps ''c: d?'']
     = Inr (cps ''The correct answer is option A: d question mark.'') \<and>
   (\<exists>f. cps ''Not so fast, I have a question for you. a minus b.''
          = INTRO_PROMPT @ cps '' '' @ f @ cps ''.'' \<and> no_punct f) \<and>
   (\<exists>l f. cps ''The correct answer is option A: d question mark.''
          = cps ''The correct answer is option '' @ l @ cps '': '' @ f @ cps ''.'' \<and>
          no_punct l \<and> no_punct f)"
proof -
  have q: "build_question_parts ascii_db Literal 1 [] (cps ''a-b'') [cps ''c: d?'']
     = Inr (cps ''Not so fast, I have a question for you. a minus b.'',
            cps ''Option C: d question mark.'')"
    by code_simp
  have a: "build_answer_text ascii_db Literal 0 [cps ''c: d?'']
     = Inr (cps ''The correct answer is option A: d question mark.'')"
    by code_simp
  from literal_fragments_punctuation_free[of ascii_db 1 "[]" "cps ''a-b''" "[cps ''c: d?'']"
         "cps ''Not so fast, I have a question for you. a minus b.''"
         "cps ''Option C: d question mark.''" 0
         "cps ''The correct answer is option A: d question mark.''"] q a
  show ?thesis by blast
qed

theorem segments_not_markup_free_counterexample:
  "build_question_parts ascii_db Literal 1 [] (cps ''x'') [cps ''y'']
     = Inr (cps ''Not so fast, I have a question for you. x.'', cps ''Option A: y.'') \<and>
   \<not> no_punct (cps ''Not so fast, I have a question for you. x.'') \<and>
   \<not> no_punct (cps ''Option A: y.'') \<and>
   build_question_parts ascii_db Natural 1 [] (cps ''O(x'' @ [92, 92, 91] @ cps '')a'')
     [[96, 96, 97, 96, 96]]
     = Inr (cps ''Not so fast, I have a question for you. Big O of x'' @ [92] @ cps ''a.'',
            cps ''Option A: '' @ [96, 97, 96] @ cps ''.'') \<and>
   \<not> cmd_free (cps ''Not so fast, I have a question for you. Big O of x'' @ [92] @ cps ''a.'') \<and>
   contains [96, 97, 96] (cps ''Option A: '' @ [96, 97, 96] @ cps ''.'')"
  by code_simp

text \<open>
  C10. In literal mode the punctuation table reaches every occurrence of its characters:
  the normalised text is the math-normalised text with each character replaced by what
  the table spells for it (every other character kept), whitespace squeezed; none of the
  thirteen characters is left. The hyphen is spelled \<open>minus\<close>, also inside a word: two
  non-empty runs of letters joined by a hyphen are spoken with \<open>minus\<close> between them, so
  \<open>well-known\<close> is spoken \<open>well minus known\<close>.
\<close>

theorem literal_hyphen_spoken:
  "to_spoken_english U Literal s = squeeze U (concat (map spell_out (speakify_math U s))) \<and>
   map fst PUNCT = cps ''()[]:,?=+-*/^'' \<and>
   spell_out 45 = cps '' minus '' \<and>
   no_punct (to_spoken_english U Literal s) \<and>
   (a \<noteq> [] \<and> b \<noteq> [] \<and> list_all is_alpha (a @ b) \<longrightarrow>
      to_spoken_english U Literal (a @ 45 # b) = a @ cps '' minus '' @ b) \<and>
   to_spoken_english U Literal (cps ''well-known'') = cps ''well minus known''"
proof (intro conjI impI)
  show "to_spoken_english U Literal s = squeeze U (concat (map spell_out (speakify_math U s)))"
    by (simp add: to_spoken_english_def literalize_one_pass)
  show "map fst PUNCT = cps ''()[]:,?=+-*/^''" by (simp add: PUNCT_def cps_def)
  show "spell_out 45 = cps '' minus ''" by (simp add: spell_out_def PUNCT_def)
  show "no_punct (to_spoken_english U Literal s)" by (rule no_punct_literal)
  show "to_spoken_english U Literal (a @ 45 # b) = a @ cps '' minus '' @ b"
    if "a \<noteq> [] \<and> b \<noteq> [] \<and> list_all is_alpha (a @ b)"
    using that hyphen_in_word by blast
  show "to_spoken_english U Literal (cps ''well-known'') = cps ''well minus known''"
    by code_simp
qed

theorem literal_hyphen_spoken_witness:
  "list_all is_alpha (cps ''co'' @ cps ''op'') \<and>
   to_spoken_english ascii_db Literal (cps ''co-op'') = cps ''co minus op'' \<and>
   to_spoken_english ascii_db Literal (cps ''a-b (c)'')
     = squeeze ascii_db (concat (map spell_out (cps ''a-b (c)'')))"
proof -
  have h: "cps ''co'' \<noteq> [] \<and> cps ''op'' \<noteq> [] \<and> list_all is_alpha (cps ''co'' @ cps ''op'')"
    by code_simp
  have e: "cps ''co'' @ 45 # cps ''op'' = cps ''co-op''"
    "cps ''co'' @ cps '' minus '' @ cps ''op'' = cps ''co minus op''"
    by (simp_all add: cps_def)
  have s: "speakify_math ascii_db (cps ''a-b (c)'') = cps ''a-b (c)''" by code_simp
  from literal_hyphen_spoken[of ascii_db "cps ''a-b (c)''" "cps ''co''" "cps ''op''"] h e s
  show ?thesis by simp
qed

text \<open>
  C3. \<open>build_answer_text\<close> at an index that is no zero-based position of the labelled
  options: an index at or beyond the length of the options, or below minus the length,
  raises \<open>IndexError\<close>; a negative index down to minus the length reads the option
  counted from the end and speaks it with the label \<open>A\<close>; so does a position from 6 on,
  for which the six letters have no label. The loop body of \<open>main\<close> guards the call with
  \<open>0 <= correct_idx < len(options)\<close>: a correct index outside the kept options is
  treated as a missing one, so that from \<open>main\<close> neither the exception nor the label
  \<open>A\<close> for a wrong index is reached.
\<close>

theorem answer_out_of_range:
  "(int (length options) \<le> correct_idx \<or> correct_idx < - int (length options) \<longrightarrow>
      build_answer_text U m correct_idx options = Inl IndexError) \<and>
   (- int (length options) \<le> correct_idx \<and> correct_idx < 0 \<longrightarrow>
      build_answer_text U m correct_idx options =
        Inr (cps ''The correct answer is option A: '' @
             to_spoken_english U m
               (answer_body U (options ! nat (int (length options) + correct_idx))) @ cps ''.'')) \<and>
   (6 \<le> correct_idx \<and> correct_idx < int (length options) \<longrightarrow>
      build_answer_text U m correct_idx options =
        Inr (cps ''The correct answer is option A: '' @
             to_spoken_english U m (answer_body U (options ! nat correct_idx)) @ cps ''.'')) \<and>
   (\<not> (0 \<le> correct_idx \<and>
        correct_idx < int (length (filter (\<lambda>t. t \<noteq> []) (map (py_strip U) (el_options q))))) \<longrightarrow>
      process_question U cfg idx (q\<lparr>el_correct := Some correct_idx\<rparr>) =
      process_question U cfg idx (q\<lparr>el_correct := None\<rparr>))"
proof (intro conjI impI)
  assume "int (length options) \<le> correct_idx \<or> correct_idx < - int (length options)"
  then show "build_answer_text U m correct_idx options = Inl IndexError"
    by (auto simp: build_answer_text_def py_index_def)
next
  assume "- int (length options) \<le> correct_idx \<and> correct_idx < 0"
  then show "build_answer_text U m correct_idx options =
        Inr (cps ''The correct answer is option A: '' @
             to_spoken_english U m
               (answer_body U (options ! nat (int (length options) + correct_idx))) @ cps ''.'')"
    by (auto simp: build_answer_text_def py_index_def cps_def)
next
  assume "6 \<le> correct_idx \<and> correct_idx < int (length options)"
  then show "build_answer_text U m correct_idx options =
        Inr (cps ''The correct answer is option A: '' @
             to_spoken_english U m (answer_body U (options ! nat correct_idx)) @ cps ''.'')"
    by (auto simp: build_answer_text_def py_index_def letters_def cps_def)
next
  assume "\<not> (0 \<le> correct_idx \<and>
        correct_idx < int (length (filter (\<lambda>t. t \<noteq> []) (map (py_strip U) (el_options q)))))"
  then show "process_question U cfg idx (q\<lparr>el_correct := Some correct_idx\<rparr>) =
      process_question U cfg idx (q\<lparr>el_correct := None\<rparr>)"
    by (rule guard_skips_answer)
qed

theorem answer_out_of_range_witness:
  "build_answer_text ascii_db Natural 1 [cps ''x''] = Inl IndexError \<and>
   build_answer_text ascii_db Natural (- 1) [cps ''x''] = Inr (cps ''The correct answer is option A: x.'') \<and>
   build_answer_text ascii_db Natural 6 (replicate 7 (cps ''x'')) = Inr (cps ''The correct answer is option A: x.'') \<and>
   process_question ascii_db
     \<lparr>READING_MODE = Natural, INCLUDE_CORRECT_ANSWER = True, INCLUDE_EXPLANATION = False,
      EXPLANATION_SEPARATE_FILE = True\<rparr> 1
     \<lparr>el_topic = cps ''Graphs'', el_text = Some (cps ''What?''), el_options = [cps ''x''],
      el_correct = Some 1, el_explanation = None\<rparr>
   = Inr [(Question, cps ''Not so fast, I have a question for you. What?.''),
          (Options, cps ''Option A: x.'')]"
proof -
  let ?cfg = "\<lparr>READING_MODE = Natural, INCLUDE_CORRECT_ANSWER = True, INCLUDE_EXPLANATION = False,
      EXPLANATION_SEPARATE_FILE = True\<rparr>"
  let ?q = "\<lparr>el_topic = cps ''Graphs'', el_text = Some (cps ''What?''), el_options = [cps ''x''],
      el_correct = Some 1, el_explanation = None\<rparr>"
  have a: "to_spoken_english ascii_db Natural (answer_body ascii_db (cps ''x'')) = cps ''x''"
    by code_simp
  have g: "\<not> (0 \<le> (1::int) \<and>
        1 < int (length (filter (\<lambda>t. t \<noteq> []) (map (py_strip ascii_db) (el_options ?q)))))"
    by code_simp
  have n: "process_question ascii_db ?cfg 1 (?q\<lparr>el_correct := None\<rparr>)
           = Inr [(Question, cps ''Not so fast, I have a question for you. What?.''),
                  (Options, cps ''Option A: x.'')]"
    by code_simp
  have u: "?q\<lparr>el_correct := Some 1\<rparr> = ?q" by simp
  from answer_out_of_range[of "[cps ''x'']" 1 ascii_db Natural ?q ?cfg 1]
  have 1: "build_answer_text ascii_db Natural 1 [cps ''x''] = Inl IndexError"
    and 4: "process_question ascii_db ?cfg 1 (?q\<lparr>el_correct := Some 1\<rparr>) =
            process_question ascii_db ?cfg 1 (?q\<lparr>el_correct := None\<rparr>)"
    using g by simp_all
  from answer_out_of_range[of "[cps ''x'']" "- 1" ascii_db Natural ?q ?cfg 1] a
  have 2: "build_answer_text ascii_db Natural (- 1) [cps ''x'']
           = Inr (cps ''The correct answer is option A: x.'')"
    by (simp add: cps_def)
  from answer_out_of_range[of "replicate 7 (cps ''x'')" 6 ascii_db Natural ?q ?cfg 1] a
  have 3: "build_answer_text ascii_db Natural 6 (replicate 7 (cps ''x''))
           = Inr (cps ''The correct answer is option A: x.'')"
    by (simp add: cps_def)
  from 4 n u have "process_question ascii_db ?cfg 1 ?q
           = Inr [(Question, cps ''Not so fast, I have a question for you. What?.''),
                  (Options, cps ''Option A: x.'')]"
    by simp
  with 1 2 3 show ?thesis by blast
qed

theorem answer_out_of_range_counterexample:
  "build_answer_text ascii_db Natural 1 [cps ''x''] = Inl IndexError"
  by code_simp

text \<open>
  C6. The last rule of \<open>LATEX_PAIRS\<close> deletes every backslash-prefixed alphabetic
  command token that the rules before it left, and nothing else: the text after the
  rules is the text after the earlier rules with each backslash that stands before a
  letter removed together with its run of letters, so no command token remains there,
  whatever the input. In the normalised text: when the backslash is the only markup and
  no earlier rule applies, the result is the input with its command tokens deleted and
  whitespace squeezed; and for every input without an opening parenthesis (where the
  Big-O rule, the one later rule that can move a letter, cannot apply) the result holds
  no command token. On the example of the specification (a backslash, then
  \<open>foo bar\<close>) the command is deleted and the text behind it kept: the result is
  \<open>bar\<close>.
\<close>

theorem unknown_commands_deleted:
  "apply_latex_pairs U t = strip_commands (earlier_rules U t) \<and>
   cmd_free (apply_latex_pairs U t) \<and>
   (plain_but_backslash t \<and> earlier_rules U t = t \<longrightarrow>
      to_spoken_english U m t = squeeze U (strip_commands t)) \<and>
   (40 \<notin> set t \<longrightarrow> cmd_free (to_spoken_english U m t)) \<and>
   to_spoken_english U Natural (92 # cps ''foo bar'') = cps ''bar''"
proof (intro conjI impI)
  show "apply_latex_pairs U t = strip_commands (earlier_rules U t)"
    by (rule apply_latex_pairs_strip)
  show "cmd_free (apply_latex_pairs U t)" by (rule cmd_free_latex_pairs)
  show "to_spoken_english U m t = squeeze U (strip_commands t)"
    if "plain_but_backslash t \<and> earlier_rules U t = t"
    using that normalize_commands_only by blast
  show "cmd_free (to_spoken_english U m t)" if "40 \<notin> set t"
    using that by (rule cmd_free_normalize)
  show "to_spoken_english U Natural (92 # cps ''foo bar'') = cps ''bar''" by code_simp
qed

theorem unknown_commands_deleted_witness:
  "plain_but_backslash (cps ''a '' @ 92 # cps ''foo b  '' @ 92 # cps ''Bar2 c'') \<and>
   earlier_rules ascii_db (cps ''a '' @ 92 # cps ''foo b  '' @ 92 # cps ''Bar2 c'')
     = cps ''a '' @ 92 # cps ''foo b  '' @ 92 # cps ''Bar2 c'' \<and>
   strip_commands (cps ''a '' @ 92 # cps ''foo b  '' @ 92 # cps ''Bar2 c'') = cps ''a  b  2 c'' \<and>
   to_spoken_english ascii_db Literal (cps ''a '' @ 92 # cps ''foo b  '' @ 92 # cps ''Bar2 c'')
     = cps ''a b 2 c'' \<and>
   cmd_free (to_spoken_english ascii_db Literal (cps ''a '' @ 92 # cps ''foo b  '' @ 92 # cps ''Bar2 c''))"
proof -
  let ?t = "cps ''a '' @ 92 # cps ''foo b  '' @ 92 # cps ''Bar2 c''"
  have p: "plain_but_backslash ?t" by code_simp
  have e: "earlier_rules ascii_db ?t = ?t" by code_simp
  have s: "strip_commands ?t = cps ''a  b  2 c''" by code_simp
  have q: "squeeze ascii_db (cps ''a  b  2 c'') = cps ''a b 2 c''" by code_simp
  have n: "40 \<notin> set ?t" by code_simp
  from unknown_commands_deleted[of ascii_db ?t Literal] p e n
  have "to_spoken_english ascii_db Literal ?t = squeeze ascii_db (strip_commands ?t)"
    and "cmd_free (to_spoken_english ascii_db Literal ?t)"
    by blast+
  with p e s q show ?thesis by simp
qed

end
